theory Spec2Isabelle
  imports Complex_Main "HOL-Library.Multiset" "HOL-Library.Sublist"
begin

section \<open>Numbers, strings and shared records\<close>

text \<open>
  The TypeScript type \<open>number\<close> is modelled by \<open>real\<close>: the clustering code only adds,
  divides, floors, takes square roots of and compares numbers, and the model follows
  these operations on the reals.  Rounding, \<open>NaN\<close> and infinite inputs are outside the
  model.  The two places where the code itself leaves the finite numbers (a missing
  array element and a division by zero) are written out in \<open>cell_index\<close> below.
\<close>

definition digit_char :: "nat \<Rightarrow> char" where
  "digit_char d = ''0123456789'' ! (d mod 10)"

function string_of_nat :: "nat \<Rightarrow> string" where
  "string_of_nat n =
     (if n < 10 then [digit_char n] else string_of_nat (n div 10) @ [digit_char (n mod 10)])"
  by pat_completeness auto
termination
  by (relation "measure (\<lambda>n. n)") auto

declare string_of_nat.simps [simp del]

definition string_of_int :: "int \<Rightarrow> string" where
  "string_of_int i =
     (if i < 0 then CHR ''-'' # string_of_nat (nat (- i)) else string_of_nat (nat i))"

record LatLng =
  lat :: real
  lng :: real

record 'a Cluster =
  id_cluster :: string
  center :: LatLng
  points :: "'a list"

datatype error = Error string

section \<open>The grid clusterer\<close>

record 'a GridOptions =
  cellSize :: real
  vector :: "'a \<Rightarrow> real list"

text \<open>
  \<open>const [x, y] = options.vector(point)\<close>: a component the array does not have is
  \<open>undefined\<close>, here \<open>None\<close>.
\<close>

definition component :: "real list \<Rightarrow> nat \<Rightarrow> real option" where
  "component v k = (if k < length v then Some (v ! k) else None)"

text \<open>
  The text of \<open>Math.floor(x / cellSize)\<close> inside the template string.  An undefined
  component makes the quotient \<open>NaN\<close>; a zero cell size makes it infinite or \<open>NaN\<close>.
  An integer is written in decimal digits (JavaScript switches to exponent notation from
  \<open>10\<^sup>2\<^sup>1\<close> on; either text determines the integer).
\<close>

definition cell_index :: "real option \<Rightarrow> real \<Rightarrow> string" where
  "cell_index x c =
     (case x of
        None \<Rightarrow> ''NaN''
      | Some v \<Rightarrow>
          if c = 0 then (if 0 < v then ''Infinity'' else if v < 0 then ''-Infinity'' else ''NaN'')
          else string_of_int \<lfloor>v / c\<rfloor>)"

definition groupID :: "'a GridOptions \<Rightarrow> 'a \<Rightarrow> string" where
  "groupID options point =
     (let v = vector options point; x = component v 0; y = component v 1
      in cell_index x (cellSize options) @ '';'' @ cell_index y (cellSize options))"

text \<open>
  \<open>buckets\<close> is a plain object used as a dictionary.  Its keys always contain a
  semicolon, so \<open>Object.entries\<close> lists them in insertion order: an association list
  that appends new keys at the end.
\<close>

type_synonym ('k, 'a) buckets = "('k \<times> 'a list) list"

definition bucket_push :: "('k, 'a) buckets \<Rightarrow> 'k \<Rightarrow> 'a \<Rightarrow> ('k, 'a) buckets" where
  "bucket_push buckets k point =
     (case map_of buckets k of
        None \<Rightarrow> buckets @ [(k, [point])]
      | Some _ \<Rightarrow> map (\<lambda>(k', ps). if k' = k then (k', ps @ [point]) else (k', ps)) buckets)"

definition fill_buckets :: "('a \<Rightarrow> string) \<Rightarrow> 'a list \<Rightarrow> (string, 'a) buckets" where
  "fill_buckets key data = fold (\<lambda>point buckets. bucket_push buckets (key point) point) data []"

definition grid_center :: "'m LatLng_scheme list \<Rightarrow> LatLng" where
  "grid_center ps =
     \<lparr> lat = foldl (\<lambda>s p. s + lat p) 0 ps / real (length ps),
       lng = foldl (\<lambda>s p. s + lng p) 0 ps / real (length ps) \<rparr>"

definition grid :: "'m LatLng_scheme list \<Rightarrow> 'm LatLng_scheme GridOptions \<Rightarrow> 'm LatLng_scheme Cluster list" where
  "grid data options =
     map (\<lambda>(k, ps). \<lparr> id_cluster = k, center = grid_center ps, points = ps \<rparr>)
       (fill_buckets (groupID options) data)"

text \<open>
  \<open>grid\<close> contains no \<open>throw\<close>: every call returns normally.  The outcome of a call, in
  the shape used for \<open>dbscan\<close> below.
\<close>

definition grid_call :: "'m LatLng_scheme list \<Rightarrow> 'm LatLng_scheme GridOptions \<Rightarrow> error + 'm LatLng_scheme Cluster list" where
  "grid_call data options = Inr (grid data options)"

text \<open>Inputs used below: Scenario 1 of the specification, and a negative cell size.\<close>

definition scenario1_points :: "LatLng list" where
  "scenario1_points = [\<lparr> lat = 0, lng = 0 \<rparr>, \<lparr> lat = 0, lng = 0.001 \<rparr>]"

definition scenario1_options :: "LatLng GridOptions" where
  "scenario1_options = \<lparr> cellSize = 150, vector = (\<lambda>p. [0, 0]) \<rparr>"

definition negative_cell_options :: "LatLng GridOptions" where
  "negative_cell_options = \<lparr> cellSize = - 1, vector = (\<lambda>p. [lat p, lng p]) \<rparr>"

section \<open>The layer controller\<close>

text \<open>
  The host map, the markers and the DOM are outside this repository; the model keeps of
  them what \<open>addClusteredLayer\<close> uses.  A host map is seen through its current bounds
  (\<open>getBounds\<close>, absent while the map has no bounds; bounds are given by their
  \<open>contains\<close> test) and its projection.  A marker is an object with identity: the
  store \<open>heap\<close> maps references to marker objects, and a marker is rendered on the map
  recorded in \<open>shown_on\<close> (set by \<open>addTo\<close>, cleared by \<open>remove\<close>).
\<close>

record 'a HostMap =
  map_id :: nat
  getBounds :: "('a \<Rightarrow> bool) option"
  project :: "'a \<Rightarrow> real \<times> real"

record Marker =
  element :: "string option"
  lngLat :: "LatLng option"
  shown_on :: "nat option"

text \<open>
  \<open>markers\<close> is the module-level variable \<open>let markers: mapboxgl.Marker[]\<close>: one list
  of marker references for the whole module.
\<close>

record world =
  markers :: "nat list"
  heap :: "nat \<Rightarrow> Marker option"
  next_ref :: nat

definition empty_world :: world where
  "empty_world = \<lparr> markers = [], heap = (\<lambda>_. None), next_ref = 0 \<rparr>"

text \<open>
  Marker \<open>r\<close> is rendered on the map with id \<open>k\<close>; the markers rendered on that map.
\<close>

definition shown :: "world \<Rightarrow> nat \<Rightarrow> nat \<Rightarrow> bool" where
  "shown w k r = (case heap w r of None \<Rightarrow> False | Some mk \<Rightarrow> shown_on mk = Some k)"

definition rendered :: "world \<Rightarrow> nat \<Rightarrow> nat list" where
  "rendered w k = filter (shown w k) [0..<next_ref w]"

definition marker_remove :: "nat \<Rightarrow> world \<Rightarrow> world" where
  "marker_remove r w =
     w\<lparr> heap := (heap w)(r := map_option (\<lambda>mk. mk\<lparr> shown_on := None \<rparr>) (heap w r)) \<rparr>"

definition clearMarkers :: "world \<Rightarrow> world" where
  "clearMarkers w = (fold marker_remove (markers w) w)\<lparr> markers := [] \<rparr>"

text \<open>
  \<open>htmlToElement\<close>.  The parameter \<open>firstElement\<close> stands for the DOM: the first child
  of the parsed, trimmed HTML when that child is an element node.
\<close>

definition htmlToElement :: "(string \<Rightarrow> string option) \<Rightarrow> string \<Rightarrow> error + string" where
  "htmlToElement firstElement html =
     (case firstElement html of
        None \<Rightarrow> Inl (Error ''Provided HTML must represent a single HTML element.'')
      | Some node \<Rightarrow> Inr node)"

record 'a LayerOptions =
  throttle :: "real option"
  clusterHTML :: "('a list \<Rightarrow> string option) option"

definition DEFAULT_THROTTLE :: real where
  "DEFAULT_THROTTLE = 200"

definition DEFAULT_CLUSTER_HTML :: "'a list \<Rightarrow> string option" where
  "DEFAULT_CLUSTER_HTML d =
     (if length d = 1 then None
      else Some (''<div class=\"cluster\">'' @ string_of_nat (length d) @ ''</div>''))"

definition DEFAULT_OPTIONS :: "'a LayerOptions" where
  "DEFAULT_OPTIONS = \<lparr> throttle = Some DEFAULT_THROTTLE, clusterHTML = Some DEFAULT_CLUSTER_HTML \<rparr>"

text \<open>\<open>{ ...DEFAULT_OPTIONS, ...options }\<close>: a field the caller gives replaces the default.\<close>

definition merge_options :: "'a LayerOptions \<Rightarrow> 'a LayerOptions" where
  "merge_options options =
     \<lparr> throttle = (case throttle options of None \<Rightarrow> throttle (DEFAULT_OPTIONS :: 'a LayerOptions) | Some t \<Rightarrow> Some t),
       clusterHTML = (case clusterHTML options of None \<Rightarrow> clusterHTML (DEFAULT_OPTIONS :: 'a LayerOptions) | Some f \<Rightarrow> Some f) \<rparr>"

text \<open>
  The loop over the groups: one new marker per cluster, added to the map and pushed on
  \<open>markers\<close>.  An exception of \<open>htmlToElement\<close> leaves the loop; the markers made so
  far stay.
\<close>

fun add_markers :: "(string \<Rightarrow> string option) \<Rightarrow> nat \<Rightarrow> 'a LayerOptions \<Rightarrow> 'a Cluster list \<Rightarrow> world \<Rightarrow> error option \<times> world" where
  "add_markers firstElement k options [] w = (None, w)"
| "add_markers firstElement k options (grp # groups) w =
     (let html = (case clusterHTML options of None \<Rightarrow> None | Some f \<Rightarrow> f (points grp))
      in case (case html of
                 None \<Rightarrow> Inr None
               | Some h \<Rightarrow>
                   if h = [] then Inr None
                   else (case htmlToElement firstElement h of
                           Inl e \<Rightarrow> Inl e
                         | Inr node \<Rightarrow> Inr (Some node))) of
           Inl e \<Rightarrow> (Some e, w)
         | Inr el \<Rightarrow>
             add_markers firstElement k options groups
               (w\<lparr> markers := markers w @ [next_ref w],
                    heap := (heap w)(next_ref w \<mapsto>
                      \<lparr> element = el, lngLat = Some (center grp), shown_on = Some k \<rparr>),
                    next_ref := next_ref w + 1 \<rparr>))"

text \<open>
  The function handed to \<open>throttle\<close> in \<open>addClusteredLayer\<close>, one invocation.  The
  result is the exception thrown, if any, and the world after the invocation.
\<close>

definition recompute :: "(string \<Rightarrow> string option) \<Rightarrow> 'm LatLng_scheme HostMap option \<Rightarrow> 'm LatLng_scheme list \<Rightarrow> 'm LatLng_scheme LayerOptions \<Rightarrow> world \<Rightarrow> error option \<times> world" where
  "recompute firstElement hmap data options w =
     (case hmap of
        None \<Rightarrow> (None, w)
      | Some m \<Rightarrow>
          (let w1 = clearMarkers w
           in case getBounds m of
                None \<Rightarrow> (None, w1)
              | Some contains \<Rightarrow>
                  (let filtered = filter contains data;
                       vectorFunc = (\<lambda>p. case project m p of (x, y) \<Rightarrow> [x, y]);
                       groups = grid filtered \<lparr> cellSize = 150, vector = vectorFunc \<rparr>
                   in add_markers firstElement (map_id m) options groups w1)))"

text \<open>
  \<open>throttle\<close>: the closure keeps \<open>lastTime\<close>; \<open>now\<close> is the value of \<open>Date.now()\<close>.
  A controller is the data, the merged options and the \<open>lastTime\<close> of its closure.  The
  subscription to the host map's \<open>zoom\<close> event is the host's business: each event is
  one call of \<open>compute\<close>.
\<close>

record 'a Controller =
  ctl_data :: "'a list"
  ctl_options :: "'a LayerOptions"
  lastTime :: real

definition compute :: "(string \<Rightarrow> string option) \<Rightarrow> 'm LatLng_scheme HostMap option \<Rightarrow> real \<Rightarrow> 'm LatLng_scheme Controller \<Rightarrow> world \<Rightarrow> error option \<times> 'm LatLng_scheme Controller \<times> world" where
  "compute firstElement hmap now ctl w =
     (let minInterval = (case throttle (ctl_options ctl) of None \<Rightarrow> 0 | Some t \<Rightarrow> t)
      in if minInterval \<le> now - lastTime ctl
         then (case recompute firstElement hmap (ctl_data ctl) (ctl_options ctl) w of
                 (e, w') \<Rightarrow> (e, ctl\<lparr> lastTime := now \<rparr>, w'))
         else (None, ctl, w))"

definition addClusteredLayer :: "(string \<Rightarrow> string option) \<Rightarrow> 'm LatLng_scheme HostMap \<Rightarrow> 'm LatLng_scheme list \<Rightarrow> 'm LatLng_scheme LayerOptions \<Rightarrow> real \<Rightarrow> world \<Rightarrow> error option \<times> 'm LatLng_scheme Controller \<times> world" where
  "addClusteredLayer firstElement m data options now w =
     compute firstElement (Some m) now
       \<lparr> ctl_data = data, ctl_options = merge_options options, lastTime = 0 \<rparr> w"

text \<open>
  Inputs used below: two host maps that show everything, the first of them also before
  it has bounds, one data point, and a DOM that accepts every string.
\<close>

definition whole_map :: "nat \<Rightarrow> LatLng HostMap" where
  "whole_map k = \<lparr> map_id = k, getBounds = Some (\<lambda>p. True), project = (\<lambda>p. (lng p, lat p)) \<rparr>"

definition unloaded_map :: "nat \<Rightarrow> LatLng HostMap" where
  "unloaded_map k = \<lparr> map_id = k, getBounds = None, project = (\<lambda>p. (lng p, lat p)) \<rparr>"

definition one_point :: "LatLng list" where
  "one_point = [\<lparr> lat = 0, lng = 0 \<rparr>]"

definition any_dom :: "string \<Rightarrow> string option" where
  "any_dom html = Some html"

definition no_options :: "LatLng LayerOptions" where
  "no_options = \<lparr> throttle = None, clusterHTML = None \<rparr>"

text \<open>
  The world after a first layer on map 10, after a later zoom event on that map while it
  has no bounds, and after a second layer on map 20.
\<close>

definition world_one_layer :: world where
  "world_one_layer = snd (snd (addClusteredLayer any_dom (whole_map 10) one_point no_options 1000 empty_world))"

definition controller_one :: "LatLng Controller" where
  "controller_one = fst (snd (addClusteredLayer any_dom (whole_map 10) one_point no_options 1000 empty_world))"

definition world_after_unloaded_zoom :: world where
  "world_after_unloaded_zoom =
     snd (snd (compute any_dom (Some (unloaded_map 10)) 2000 controller_one world_one_layer))"

definition world_two_layers :: world where
  "world_two_layers =
     snd (snd (addClusteredLayer any_dom (whole_map 20) one_point no_options 1500 world_one_layer))"

section \<open>DBSCAN\<close>

type_synonym 'a DistanceFn = "'a \<Rightarrow> 'a \<Rightarrow> real"

record 'a DbscanOptions =
  eps :: real
  minPts :: real
  vector :: "'a \<Rightarrow> real list"
  coord :: "'a \<Rightarrow> LatLng"
  distance :: "'a DistanceFn option"

definition euclidean :: "real list \<Rightarrow> real list \<Rightarrow> real" where
  "euclidean a b =
     sqrt (foldl (\<lambda>sum i. sum + (a ! i - b ! i) * (a ! i - b ! i)) 0
             [0..<min (length a) (length b)])"

definition buildDistance :: "'a DbscanOptions \<Rightarrow> 'a DistanceFn" where
  "buildDistance opts =
     (case distance opts of
        Some d \<Rightarrow> d
      | None \<Rightarrow> (\<lambda>a b. euclidean (DbscanOptions.vector opts a) (DbscanOptions.vector opts b)))"

text \<open>
  The arrays that the closures of \<open>dbscan\<close> share and mutate.  \<open>clusters\<close> is a sparse
  array of index lists; a slot that was never assigned reads as the empty list here
  (the code assigns \<open>[]\<close> to slot \<open>clusterId\<close> before it expands that cluster, and the
  array is never read for the returned value).
\<close>

record dbscan_state =
  visited :: "bool list"
  labels :: "int list"
  corePoints :: "bool list"
  neighborsCache :: "nat list option list"
  clusters :: "nat \<Rightarrow> nat list"

definition init_state :: "nat \<Rightarrow> dbscan_state" where
  "init_state n =
     \<lparr> visited = replicate n False, labels = replicate n (- 1),
       corePoints = replicate n False, neighborsCache = replicate n None,
       clusters = (\<lambda>_. []) \<rparr>"

text \<open>
  Every index that the code below reads or writes is taken from \<open>0 .. n - 1\<close> or
  from a neighbour list, so it is below \<open>n\<close> (\<open>scan_neighbors_bound\<close>, \<open>queue_ok\<close>
  below); array accesses are written with \<open>!\<close> and list update.
\<close>

text \<open>The scan of \<open>regionQuery\<close> (the loop over \<open>j\<close>), without the cache.\<close>

definition scan_neighbors :: "'a list \<Rightarrow> 'a DbscanOptions \<Rightarrow> nat \<Rightarrow> nat list" where
  "scan_neighbors pts options i =
     filter (\<lambda>j. if i = j then 0 \<le> eps options
                 else buildDistance options (pts ! i) (pts ! j) \<le> eps options)
       [0..<length pts]"

definition regionQuery :: "'a list \<Rightarrow> 'a DbscanOptions \<Rightarrow> nat \<Rightarrow> dbscan_state \<Rightarrow> nat list \<times> dbscan_state" where
  "regionQuery pts options i st =
     (case neighborsCache st ! i of
        Some res \<Rightarrow> (res, st)
      | None \<Rightarrow>
          (let res = scan_neighbors pts options i
           in (res, st\<lparr> neighborsCache := (neighborsCache st)[i := Some res] \<rparr>)))"

fun queueIncludes :: "nat list \<Rightarrow> nat \<Rightarrow> bool" where
  "queueIncludes [] x = False"
| "queueIncludes (a # arr) x = (if a = x then True else queueIncludes arr x)"

definition push_new :: "nat list \<Rightarrow> nat list \<Rightarrow> nat list" where
  "push_new jNeigh queue =
     fold (\<lambda>nb queue. if \<not> queueIncludes queue nb then queue @ [nb] else queue) jNeigh queue"

text \<open>One iteration of the loop over \<open>q\<close> in \<open>expandCluster\<close>.\<close>

definition expand_step :: "'a list \<Rightarrow> 'a DbscanOptions \<Rightarrow> nat \<Rightarrow> nat list \<Rightarrow> nat \<Rightarrow> dbscan_state \<Rightarrow> nat list \<times> dbscan_state" where
  "expand_step pts options cid queue q st =
     (let j = queue ! q;
          (queue1, st1) =
            (if \<not> visited st ! j then
               (let st' = st\<lparr> visited := (visited st)[j := True] \<rparr>;
                    (jNeigh, st'') = regionQuery pts options j st'
                in if minPts options \<le> real (length jNeigh) + 1
                   then (push_new jNeigh queue, st''\<lparr> corePoints := (corePoints st'')[j := True] \<rparr>)
                   else (queue, st''))
             else (queue, st))
      in if labels st1 ! j = - 1
         then (queue1, st1\<lparr> labels := (labels st1)[j := int cid],
                              clusters := (clusters st1)(cid := clusters st1 cid @ [j]) \<rparr>)
         else (queue1, st1))"

text \<open>
  The loop over \<open>q\<close>.  The queue grows while the loop runs, so the loop is not bounded
  by its text: a run that never ends is the value \<open>None\<close>.  The result keeps the final
  queue beside the state; the loop ends with \<open>q = queue.length\<close>, so the length of that
  queue is the number of iterations performed.
\<close>

partial_function (option) expand_loop :: "'a list \<Rightarrow> 'a DbscanOptions \<Rightarrow> nat \<Rightarrow> nat list \<Rightarrow> nat \<Rightarrow> dbscan_state \<Rightarrow> (nat list \<times> dbscan_state) option" where
  "expand_loop pts options cid queue q st =
     (if q < length queue then
        (case expand_step pts options cid queue q st of
           (queue', st') \<Rightarrow> expand_loop pts options cid queue' (q + 1) st')
      else Some (queue, st))"

definition expandCluster :: "'a list \<Rightarrow> 'a DbscanOptions \<Rightarrow> nat \<Rightarrow> nat list \<Rightarrow> nat \<Rightarrow> dbscan_state \<Rightarrow> (nat list \<times> dbscan_state) option" where
  "expandCluster pts options seedIndex seedNeighbors cid st =
     expand_loop pts options cid seedNeighbors 0
       (st\<lparr> labels := (labels st)[seedIndex := int cid],
            corePoints := (corePoints st)[seedIndex := True],
            clusters := (clusters st)(cid := clusters st cid @ [seedIndex]) \<rparr>)"

text \<open>
  The configurations (queue, \<open>q\<close>, state) that the loop passes through, one
  \<open>expand_step\<close> at a time.
\<close>

inductive expansion_reaches :: "'a list \<Rightarrow> 'a DbscanOptions \<Rightarrow> nat \<Rightarrow> nat list \<times> nat \<times> dbscan_state \<Rightarrow> nat list \<times> nat \<times> dbscan_state \<Rightarrow> bool"
  for pts :: "'a list" and options :: "'a DbscanOptions" and cid :: nat and c :: "nat list \<times> nat \<times> dbscan_state"
  where
    start: "expansion_reaches pts options cid c c"
  | iterate: "expansion_reaches pts options cid c (queue, q, st) \<Longrightarrow> q < length queue \<Longrightarrow>
       expand_step pts options cid queue q st = (queue', st') \<Longrightarrow>
       expansion_reaches pts options cid c (queue', q + 1, st')"

text \<open>One iteration of the main loop over \<open>i\<close>; the state carries \<open>clusterId\<close>.\<close>

definition main_step :: "'a list \<Rightarrow> 'a DbscanOptions \<Rightarrow> nat \<Rightarrow> dbscan_state \<times> nat \<Rightarrow> (dbscan_state \<times> nat) option" where
  "main_step pts options i s =
     (case s of (st, clusterId) \<Rightarrow>
        if visited st ! i then Some (st, clusterId)
        else
          (let st1 = st\<lparr> visited := (visited st)[i := True] \<rparr>;
               (neigh, st2) = regionQuery pts options i st1
           in if real (length neigh) + 1 < minPts options
              then Some (st2\<lparr> labels := (labels st2)[i := - 1] \<rparr>, clusterId)
              else
                (case expandCluster pts options i neigh clusterId
                        (st2\<lparr> clusters := (clusters st2)(clusterId := []) \<rparr>) of
                   None \<Rightarrow> None
                 | Some (queue, st3) \<Rightarrow> Some (st3, clusterId + 1))))"

fun main_loop :: "'a list \<Rightarrow> 'a DbscanOptions \<Rightarrow> nat list \<Rightarrow> dbscan_state \<times> nat \<Rightarrow> (dbscan_state \<times> nat) option" where
  "main_loop pts options [] s = Some s"
| "main_loop pts options (i # is) s =
     (case main_step pts options i s of
        None \<Rightarrow> None
      | Some s' \<Rightarrow> main_loop pts options is s')"

definition dbscan_run :: "'a list \<Rightarrow> 'a DbscanOptions \<Rightarrow> (dbscan_state \<times> nat) option" where
  "dbscan_run pts options =
     main_loop pts options [0..<length pts] (init_state (length pts), 0)"

text \<open>
  The two passes after the main loop.  Their results (\<open>borderPoints\<close>, \<open>noise\<close>) are
  local to \<open>dbscan\<close> and not part of what it returns.
\<close>

definition borderPoints_of :: "dbscan_state \<Rightarrow> bool list" where
  "borderPoints_of st =
     map (\<lambda>i. 0 \<le> labels st ! i \<and> \<not> corePoints st ! i) [0..<length (labels st)]"

definition noise_of :: "int list \<Rightarrow> nat list" where
  "noise_of lbls = filter (\<lambda>i. lbls ! i = - 1) [0..<length lbls]"

text \<open>
  \<open>groupByCluster\<close>: a \<open>Map\<close> keeps its keys in insertion order; its entries are then
  sorted by label.
\<close>

definition groupByCluster :: "'a list \<Rightarrow> int list \<Rightarrow> 'a list list" where
  "groupByCluster items lbls =
     map snd (sort_key fst
       (fold (\<lambda>i m. let lbl = lbls ! i in if lbl < 0 then m else bucket_push m lbl (items ! i))
          [0..<length items] []))"

definition dbscan_center :: "('a \<Rightarrow> LatLng) \<Rightarrow> 'a list \<Rightarrow> LatLng" where
  "dbscan_center crd ps =
     \<lparr> lat = foldl (\<lambda>s p. s + lat (crd p)) 0 ps / real (length ps),
       lng = foldl (\<lambda>s p. s + lng (crd p)) 0 ps / real (length ps) \<rparr>"

text \<open>
  \<open>dbscan\<close>.  \<open>None\<close>: the call does not return; \<open>Some (Inl e)\<close>: it throws \<open>e\<close>;
  \<open>Some (Inr cs)\<close>: it returns the clusters \<open>cs\<close>.
\<close>

definition dbscan :: "'a list \<Rightarrow> 'a DbscanOptions \<Rightarrow> (error + 'a Cluster list) option" where
  "dbscan pts options =
     (if \<not> 0 < eps options then Some (Inl (Error ''eps must be > 0''))
      else if \<not> 1 \<le> minPts options then Some (Inl (Error ''minPts must be >= 1''))
      else
        (case dbscan_run pts options of
           None \<Rightarrow> None
         | Some (st, clusterId) \<Rightarrow>
             Some (Inr (map (\<lambda>(i, ps). \<lparr> id_cluster = string_of_nat i,
                                         center = dbscan_center (coord options) ps,
                                         points = ps \<rparr>)
                          (enumerate 0 (groupByCluster pts (labels st)))))))"

text \<open>
  The labels at the end of the main loop, and the returned clusters as lists of
  positions in the input (what \<open>groupByCluster\<close> yields when every item is its own
  index).
\<close>

definition dbscan_labels :: "'a list \<Rightarrow> 'a DbscanOptions \<Rightarrow> int list option" where
  "dbscan_labels pts options = map_option (\<lambda>s. labels (fst s)) (dbscan_run pts options)"

definition dbscan_indices :: "'a list \<Rightarrow> 'a DbscanOptions \<Rightarrow> nat list list option" where
  "dbscan_indices pts options =
     map_option (groupByCluster [0..<length pts]) (dbscan_labels pts options)"

text \<open>
  Inputs used below: integer positions on a line, with the absolute difference as the
  custom \<open>distance\<close> option.
\<close>

definition line_options :: "real \<Rightarrow> real \<Rightarrow> int DbscanOptions" where
  "line_options e m =
     \<lparr> eps = e, minPts = m, vector = (\<lambda>x. [real_of_int x]),
       coord = (\<lambda>x. \<lparr> lat = real_of_int x, lng = 0 \<rparr>),
       distance = Some (\<lambda>a b. real_of_int \<bar>a - b\<bar>) \<rparr>"

text \<open>
  Scenario 3 of the specification: four points of the plane within distance 1 of each
  other, with the default (Euclidean) distance.
\<close>

definition scenario3_points :: "LatLng list" where
  "scenario3_points =
     [\<lparr> lat = 0, lng = 0 \<rparr>, \<lparr> lat = 0, lng = 1 / 2 \<rparr>,
      \<lparr> lat = 1 / 2, lng = 0 \<rparr>, \<lparr> lat = 1 / 2, lng = 1 / 2 \<rparr>]"

definition scenario3_options :: "LatLng DbscanOptions" where
  "scenario3_options =
     \<lparr> eps = 1, minPts = 5, vector = (\<lambda>p. [lat p, lng p]), coord = (\<lambda>p. p),
       distance = None \<rparr>"

text \<open>Two groups on a line with a point between them, in two input orders.\<close>

definition border_points :: "int list" where
  "border_points = [- 6, - 5, - 4, 0, 4, 5, 6, 8]"

definition widening_points :: "int list" where
  "widening_points = [- 4, - 5, - 6, - 7, 3, 5, 6, 7, 0]"

section \<open>Definitions used in the proofs\<close>

text \<open>
  Both dictionaries of the code (the buckets of \<open>grid\<close> and the \<open>Map\<close> of
  \<open>groupByCluster\<close>) are filled by pushing a list of key/item pairs in order.
\<close>

definition push_all :: "('k \<times> 'a) list \<Rightarrow> ('k, 'a) buckets" where
  "push_all kxs = fold (\<lambda>(k, x) b. bucket_push b k x) kxs []"

definition items_of :: "'k \<Rightarrow> ('k \<times> 'a) list \<Rightarrow> 'a list" where
  "items_of k kxs = map snd (filter (\<lambda>e. fst e = k) kxs)"

definition buckets_ok :: "('k \<times> 'a) list \<Rightarrow> ('k, 'a) buckets \<Rightarrow> bool" where
  "buckets_ok kxs b \<longleftrightarrow>
     distinct (map fst b) \<and>
     (\<forall>k ps. (k, ps) \<in> set b \<longrightarrow> ps \<noteq> [] \<and> items_of k kxs = ps) \<and>
     mset (concat (map snd b)) = mset (map snd kxs) \<and>
     fst ` set b = fst ` set kxs"

text \<open>
  The core test as the code writes it (\<open>jNeigh.length + 1 >= minPts\<close>), on the
  neighbour list that \<open>regionQuery\<close> computes.
\<close>

definition is_core :: "'a list \<Rightarrow> 'a DbscanOptions \<Rightarrow> nat \<Rightarrow> bool" where
  "is_core pts options i \<longleftrightarrow> minPts options \<le> real (length (scan_neighbors pts options i)) + 1"

text \<open>The arrays have the length of the input, and the cache holds scan results only.\<close>

definition state_ok :: "'a list \<Rightarrow> 'a DbscanOptions \<Rightarrow> dbscan_state \<Rightarrow> bool" where
  "state_ok pts options st \<longleftrightarrow>
     length (visited st) = length pts \<and> length (labels st) = length pts \<and>
     length (corePoints st) = length pts \<and> length (neighborsCache st) = length pts \<and>
     (\<forall>i res. i < length pts \<longrightarrow> neighborsCache st ! i = Some res \<longrightarrow>
        res = scan_neighbors pts options i)"

definition cache_put :: "'a list \<Rightarrow> 'a DbscanOptions \<Rightarrow> nat \<Rightarrow> dbscan_state \<Rightarrow> dbscan_state" where
  "cache_put pts options i st =
     st\<lparr> neighborsCache := (neighborsCache st)[i := Some (scan_neighbors pts options i)] \<rparr>"

text \<open>
  One iteration of the expansion loop in closed form: the new queue, the visit of the
  dequeued point and its assignment to the cluster.
\<close>

definition step_queue :: "'a list \<Rightarrow> 'a DbscanOptions \<Rightarrow> nat list \<Rightarrow> nat \<Rightarrow> dbscan_state \<Rightarrow> nat list" where
  "step_queue pts options queue q st =
     (if \<not> visited st ! (queue ! q) \<and> is_core pts options (queue ! q)
      then push_new (scan_neighbors pts options (queue ! q)) queue else queue)"

definition visit :: "'a list \<Rightarrow> 'a DbscanOptions \<Rightarrow> nat \<Rightarrow> dbscan_state \<Rightarrow> dbscan_state" where
  "visit pts options j st =
     (if \<not> visited st ! j then
        (let st'' = cache_put pts options j (st\<lparr> visited := (visited st)[j := True] \<rparr>)
         in if is_core pts options j
            then st''\<lparr> corePoints := (corePoints st'')[j := True] \<rparr> else st'')
      else st)"

definition assign :: "nat \<Rightarrow> nat \<Rightarrow> dbscan_state \<Rightarrow> dbscan_state" where
  "assign cid j st =
     (if labels st ! j = - 1
      then st\<lparr> labels := (labels st)[j := int cid],
               clusters := (clusters st)(cid := clusters st cid @ [j]) \<rparr>
      else st)"

text \<open>The queue of \<open>expandCluster\<close>: no duplicates, only indices of the input.\<close>

definition queue_ok :: "nat \<Rightarrow> nat list \<Rightarrow> nat \<Rightarrow> bool" where
  "queue_ok n queue q \<longleftrightarrow> distinct queue \<and> set queue \<subseteq> {..<n} \<and> q \<le> length queue"

text \<open>
  Labels are \<open>-1\<close> or a cluster id below \<open>k\<close>; a labelled point has been visited; every
  index in \<open>D\<close> has been visited.
\<close>

definition labels_ok :: "nat \<Rightarrow> nat set \<Rightarrow> dbscan_state \<Rightarrow> bool" where
  "labels_ok k D st \<longleftrightarrow>
     (\<forall>i < length (labels st).
        (labels st ! i = - 1 \<or> 0 \<le> labels st ! i \<and> labels st ! i < int k) \<and>
        (0 \<le> labels st ! i \<longrightarrow> visited st ! i)) \<and>
     (\<forall>i \<in> D. visited st ! i)"

definition processed :: "nat list \<Rightarrow> nat \<Rightarrow> dbscan_state \<Rightarrow> bool" where
  "processed queue q st \<longleftrightarrow> (\<forall>k < q. 0 \<le> labels st ! (queue ! k))"

text \<open>
  A visited core point is labelled, and each of its neighbours is labelled with an id
  that is not larger; while cluster \<open>cid\<close> is expanded, a neighbour of a core point of
  that cluster may still wait in the queue.
\<close>

definition absorbing :: "'a list \<Rightarrow> 'a DbscanOptions \<Rightarrow> nat \<Rightarrow> nat list \<Rightarrow> dbscan_state \<Rightarrow> bool" where
  "absorbing pts options cid queue st \<longleftrightarrow>
     (\<forall>i nb. i < length pts \<longrightarrow> visited st ! i \<longrightarrow> is_core pts options i \<longrightarrow>
        nb \<in> set (scan_neighbors pts options i) \<longrightarrow>
          0 \<le> labels st ! i \<and>
          (0 \<le> labels st ! nb \<and> labels st ! nb \<le> labels st ! i \<or>
           labels st ! i = int cid \<and> nb \<in> set queue))"

definition absorbed :: "'a list \<Rightarrow> 'a DbscanOptions \<Rightarrow> dbscan_state \<Rightarrow> bool" where
  "absorbed pts options st \<longleftrightarrow>
     (\<forall>i nb. i < length pts \<longrightarrow> visited st ! i \<longrightarrow> is_core pts options i \<longrightarrow>
        nb \<in> set (scan_neighbors pts options i) \<longrightarrow>
          0 \<le> labels st ! i \<and> 0 \<le> labels st ! nb \<and> labels st ! nb \<le> labels st ! i)"

text \<open>
  One step of density reachability, and its closure.  Every labelled point is reachable
  from the seed of its cluster.
\<close>

definition link :: "'a list \<Rightarrow> 'a DbscanOptions \<Rightarrow> nat \<Rightarrow> nat \<Rightarrow> bool" where
  "link pts options a b \<longleftrightarrow>
     a < length pts \<and> is_core pts options a \<and> b \<in> set (scan_neighbors pts options a)"

definition reach :: "'a list \<Rightarrow> 'a DbscanOptions \<Rightarrow> nat \<Rightarrow> nat \<Rightarrow> bool" where
  "reach pts options = (link pts options)\<^sup>*\<^sup>*"

definition rooted :: "'a list \<Rightarrow> 'a DbscanOptions \<Rightarrow> dbscan_state \<Rightarrow> bool" where
  "rooted pts options st \<longleftrightarrow>
     (\<forall>c. \<exists>s. \<forall>i < length pts. labels st ! i = int c \<longrightarrow> reach pts options s i)"

definition rooted_at :: "'a list \<Rightarrow> 'a DbscanOptions \<Rightarrow> nat \<Rightarrow> nat \<Rightarrow> nat list \<Rightarrow> dbscan_state \<Rightarrow> bool" where
  "rooted_at pts options cid seed queue st \<longleftrightarrow>
     (\<forall>i < length pts. labels st ! i = int cid \<longrightarrow> reach pts options seed i) \<and>
     (\<forall>x \<in> set queue. reach pts options seed x) \<and>
     (\<forall>c. c \<noteq> cid \<longrightarrow> (\<exists>s. \<forall>i < length pts. labels st ! i = int c \<longrightarrow> reach pts options s i))"

definition loop_inv :: "'a list \<Rightarrow> 'a DbscanOptions \<Rightarrow> nat \<Rightarrow> nat \<Rightarrow> nat set \<Rightarrow> nat list \<Rightarrow> nat \<Rightarrow> dbscan_state \<Rightarrow> bool" where
  "loop_inv pts options cid seed D queue q st \<longleftrightarrow>
     state_ok pts options st \<and> queue_ok (length pts) queue q \<and>
     labels_ok (Suc cid) D st \<and> processed queue q st \<and>
     absorbing pts options cid queue st \<and> rooted_at pts options cid seed queue st"

definition main_inv :: "'a list \<Rightarrow> 'a DbscanOptions \<Rightarrow> nat set \<Rightarrow> dbscan_state \<times> nat \<Rightarrow> bool" where
  "main_inv pts options D s \<longleftrightarrow>
     state_ok pts options (fst s) \<and> labels_ok (snd s) D (fst s) \<and>
     absorbed pts options (fst s) \<and> rooted pts options (fst s)"

text \<open>
  The state in which the main loop leaves a point found not dense enough, and the state
  with which \<open>expandCluster\<close> enters its loop for a new seed.
\<close>

definition noise_state :: "'a list \<Rightarrow> 'a DbscanOptions \<Rightarrow> nat \<Rightarrow> dbscan_state \<Rightarrow> dbscan_state" where
  "noise_state pts options i st =
     (let st2 = cache_put pts options i (st\<lparr> visited := (visited st)[i := True] \<rparr>)
      in st2\<lparr> labels := (labels st2)[i := - 1] \<rparr>)"

definition seed_state :: "'a list \<Rightarrow> 'a DbscanOptions \<Rightarrow> nat \<Rightarrow> nat \<Rightarrow> dbscan_state \<Rightarrow> dbscan_state" where
  "seed_state pts options i cid st =
     (let st2 = cache_put pts options i (st\<lparr> visited := (visited st)[i := True] \<rparr>);
          st3 = st2\<lparr> clusters := (clusters st2)(cid := []) \<rparr>
      in st3\<lparr> labels := (labels st3)[i := int cid],
              corePoints := (corePoints st3)[i := True],
              clusters := (clusters st3)(cid := clusters st3 cid @ [i]) \<rparr>)"

text \<open>
  \<open>groupByCluster\<close> in closed form: the key/item pairs it pushes, the sorted list of
  the labels in use, and the positions that carry a given label.
\<close>

definition labelled :: "'a list \<Rightarrow> int list \<Rightarrow> (int \<times> 'a) list" where
  "labelled items lbls =
     map (\<lambda>i. (lbls ! i, items ! i)) (filter (\<lambda>i. \<not> lbls ! i < 0) [0..<length items])"

definition cluster_keys :: "nat \<Rightarrow> int list \<Rightarrow> int list" where
  "cluster_keys n lbls = sort (remdups (filter (\<lambda>k. 0 \<le> k) (map (nth lbls) [0..<n])))"

definition members :: "nat \<Rightarrow> int list \<Rightarrow> int \<Rightarrow> nat list" where
  "members n lbls k = filter (\<lambda>i. lbls ! i = k) [0..<n]"

text \<open>The callback that \<open>dbscan\<close> maps over the groups.\<close>

definition mk_clusters :: "('a \<Rightarrow> LatLng) \<Rightarrow> 'a list list \<Rightarrow> 'a Cluster list" where
  "mk_clusters crd groups =
     map (\<lambda>(i, ps). \<lparr> id_cluster = string_of_nat i, center = dbscan_center crd ps, points = ps \<rparr>)
       (enumerate 0 groups)"

section \<open>Dictionaries filled in insertion order\<close>

lemma buckets_okD:
  "buckets_ok kxs b \<Longrightarrow> (k, ps) \<in> set b \<Longrightarrow> ps \<noteq> [] \<and> items_of k kxs = ps"
  unfolding buckets_ok_def by blast

lemma push_all_snoc: "push_all (kxs @ [(k, x)]) = bucket_push (push_all kxs) k x"
  by (simp add: push_all_def)

lemma map_of_Some_key: "map_of b k = Some ps \<Longrightarrow> k \<in> fst ` set b"
  using map_of_eq_None_iff [of b k] by auto

lemma bucket_append_keys:
  "map fst (map (\<lambda>(k', ps). if k' = k then (k', ps @ [p]) else (k', ps)) b) = map fst b"
  by (induction b) auto

lemma bucket_append_mset:
  "distinct (map fst b) \<Longrightarrow> k \<in> fst ` set b \<Longrightarrow>
   mset (concat (map snd (map (\<lambda>(k', ps). if k' = k then (k', ps @ [p]) else (k', ps)) b)))
     = mset (concat (map snd b)) + {#p#}"
proof (induction b)
  case Nil
  then show ?case by simp
next
  case (Cons e b)
  obtain k0 ps0 where e: "e = (k0, ps0)" by (cases e)
  show ?case
  proof (cases "k0 = k")
    case True
    then have "k \<notin> fst ` set b" using Cons.prems e by auto
    then have "map (\<lambda>(k', ps). if k' = k then (k', ps @ [p]) else (k', ps)) b = b"
      by (induction b) auto
    then show ?thesis using True e by simp
  next
    case False
    then show ?thesis using Cons e by auto
  qed
qed

lemma items_of_snoc:
  "items_of k (kxs @ [(k', x)]) = (if k' = k then items_of k kxs @ [x] else items_of k kxs)"
  by (simp add: items_of_def)

lemma bucket_push_ok:
  assumes "buckets_ok kxs b"
  shows "buckets_ok (kxs @ [(k, x)]) (bucket_push b k x)"
proof (cases "map_of b k")
  case None
  then have notin: "k \<notin> fst ` set b" by (simp add: map_of_eq_None_iff)
  have keys: "fst ` set b = fst ` set kxs"
    using assms by (simp add: buckets_ok_def)
  have nodata: "items_of k kxs = []"
    using notin keys by (auto simp: items_of_def filter_empty_conv)
  have eq: "bucket_push b k x = b @ [(k, [x])]"
    using None by (simp add: bucket_push_def)
  have "distinct (map fst (b @ [(k, [x])]))"
    using assms notin by (simp add: buckets_ok_def)
  moreover have "ps \<noteq> [] \<and> items_of k' (kxs @ [(k, x)]) = ps"
    if "(k', ps) \<in> set (b @ [(k, [x])])" for k' ps
  proof (cases "(k', ps) \<in> set b")
    case True
    then have "k' \<noteq> k" using notin by force
    then show ?thesis using buckets_okD [OF assms True] by (simp add: items_of_snoc)
  next
    case False
    then have "k' = k" "ps = [x]" using that by auto
    then show ?thesis using nodata by (simp add: items_of_snoc)
  qed
  moreover have "mset (concat (map snd (b @ [(k, [x])]))) = mset (map snd (kxs @ [(k, x)]))"
    using assms by (simp add: buckets_ok_def)
  moreover have "fst ` set (b @ [(k, [x])]) = fst ` set (kxs @ [(k, x)])"
    using keys by simp
  ultimately show ?thesis unfolding eq buckets_ok_def by blast
next
  case (Some ps0)
  then have isin: "k \<in> fst ` set b" by (rule map_of_Some_key)
  have eq: "bucket_push b k x =
      map (\<lambda>(k', ps). if k' = k then (k', ps @ [x]) else (k', ps)) b"
    using Some by (simp add: bucket_push_def)
  have keys: "map fst (bucket_push b k x) = map fst b"
    unfolding eq by (rule bucket_append_keys)
  have keyset: "fst ` set b = fst ` set kxs"
    using assms by (simp add: buckets_ok_def)
  have "distinct (map fst (bucket_push b k x))"
    using assms by (simp add: keys buckets_ok_def)
  moreover have "ps \<noteq> [] \<and> items_of k' (kxs @ [(k, x)]) = ps"
    if "(k', ps) \<in> set (bucket_push b k x)" for k' ps
  proof -
    from that obtain ps' where in_b: "(k', ps') \<in> set b"
      and ps: "ps = (if k' = k then ps' @ [x] else ps')"
      unfolding eq by (auto split: if_splits)
    from buckets_okD [OF assms in_b] show ?thesis by (auto simp: ps items_of_snoc)
  qed
  moreover have "mset (concat (map snd (bucket_push b k x))) = mset (map snd (kxs @ [(k, x)]))"
  proof -
    have "distinct (map fst b)" "mset (concat (map snd b)) = mset (map snd kxs)"
      using assms by (simp_all add: buckets_ok_def)
    then show ?thesis
      unfolding eq using bucket_append_mset [of b k x] isin by simp
  qed
  moreover have "fst ` set (bucket_push b k x) = fst ` set (kxs @ [(k, x)])"
  proof -
    have "fst ` set (bucket_push b k x) = set (map fst (bucket_push b k x))" by simp
    also have "\<dots> = fst ` set b" by (simp add: keys)
    finally show ?thesis using keyset isin by auto
  qed
  ultimately show ?thesis unfolding buckets_ok_def by blast
qed

lemma push_all_ok: "buckets_ok kxs (push_all kxs)"
proof (induction kxs rule: rev_induct)
  case Nil
  then show ?case by (simp add: buckets_ok_def push_all_def)
next
  case (snoc e kxs)
  obtain k x where "e = (k, x)" by (cases e)
  with snoc show ?case by (simp add: push_all_snoc bucket_push_ok)
qed

section \<open>The grid clusterer: partition, order and centers\<close>

lemma fill_buckets_push_all: "fill_buckets key data = push_all (map (\<lambda>p. (key p, p)) data)"
  by (simp add: fill_buckets_def push_all_def fold_map o_def)

lemma items_of_keyed: "items_of k (map (\<lambda>p. (key p, p)) data) = filter (\<lambda>p. key p = k) data"
  by (induction data) (simp_all add: items_of_def)

lemma grid_points: "map points (grid data options) = map snd (fill_buckets (groupID options) data)"
  by (simp add: grid_def case_prod_unfold)

lemma grid_ids: "map id_cluster (grid data options) = map fst (fill_buckets (groupID options) data)"
  by (simp add: grid_def case_prod_unfold)

lemma grid_partition:
  "mset (concat (map points (grid data options))) = mset data \<and>
   (\<forall>c \<in> set (grid data options).
      points c \<noteq> [] \<and> points c = filter (\<lambda>p. groupID options p = id_cluster c) data) \<and>
   distinct (map id_cluster (grid data options))"
proof -
  let ?kxs = "map (\<lambda>p. (groupID options p, p)) data"
  let ?b = "fill_buckets (groupID options) data"
  have ok: "buckets_ok ?kxs ?b"
    unfolding fill_buckets_push_all by (rule push_all_ok)
  have 1: "mset (concat (map points (grid data options))) = mset data"
    using ok by (simp add: grid_points buckets_ok_def o_def)
  have 2: "distinct (map id_cluster (grid data options))"
    using ok by (simp add: grid_ids buckets_ok_def)
  have 3: "points c \<noteq> [] \<and> points c = filter (\<lambda>p. groupID options p = id_cluster c) data"
    if "c \<in> set (grid data options)" for c
  proof -
    from that obtain k ps where kp: "(k, ps) \<in> set ?b"
      and c: "c = \<lparr> id_cluster = k, center = grid_center ps, points = ps \<rparr>"
      by (auto simp: grid_def)
    from ok kp have "ps \<noteq> [] \<and> items_of k ?kxs = ps"
      by (rule buckets_okD)
    moreover have "points c = ps" "id_cluster c = k" by (simp_all add: c)
    ultimately show ?thesis by (metis items_of_keyed)
  qed
  show ?thesis using 1 2 3 by blast
qed

lemma foldl_add_sum: "foldl (\<lambda>s p. s + f p) a ps = a + sum_list (map f ps)" for a :: real
  by (induction ps arbitrary: a) (simp_all add: add.assoc)

lemma grid_center_mean:
  "grid_center ps = \<lparr> lat = sum_list (map lat ps) / real (length ps),
                      lng = sum_list (map lng ps) / real (length ps) \<rparr>"
  by (simp add: grid_center_def foldl_add_sum)

lemma grid_centers:
  "c \<in> set (grid data options) \<Longrightarrow> center c = grid_center (points c)"
  by (auto simp: grid_def)

lemma string_of_nat_digit: "n < 10 \<Longrightarrow> string_of_nat n = [digit_char n]"
  by (subst string_of_nat.simps) simp

lemma string_of_nat_0: "string_of_nat 0 = ''0''"
  by (simp add: string_of_nat_digit digit_char_def)

lemma string_of_nat_1: "string_of_nat (Suc 0) = ''1''"
  by (simp add: string_of_nat_digit digit_char_def)

lemma groupID_scenario1: "groupID scenario1_options p = ''0;0''"
  by (simp add: scenario1_options_def groupID_def component_def cell_index_def
      string_of_int_def string_of_nat_0)

lemma grid_scenario1:
  "grid scenario1_points scenario1_options =
     [\<lparr> id_cluster = ''0;0'', center = \<lparr> lat = 0, lng = 0.0005 \<rparr>, points = scenario1_points \<rparr>]"
  by (simp add: grid_def fill_buckets_def bucket_push_def groupID_scenario1 grid_center_def
      scenario1_points_def)

text \<open>
  C2.  For a positive cell size and any vector accessor, the clusters returned by
  \<open>grid\<close> partition the input: the multiset union of their \<open>points\<close> is the input,
  the cluster ids are pairwise different, and every cluster holds exactly the input
  points of its cell, in input order (so it is a non-empty subsequence of the input).
\<close>

theorem grid_partitions_input:
  assumes "0 < cellSize options"
  shows "mset (concat (map points (grid data options))) = mset data \<and>
         distinct (map id_cluster (grid data options)) \<and>
         (\<forall>c \<in> set (grid data options).
            points c \<noteq> [] \<and>
            points c = filter (\<lambda>p. groupID options p = id_cluster c) data \<and>
            subseq (points c) data)"
proof -
  have "subseq (points c) data"
    if "points c = filter (\<lambda>p. groupID options p = id_cluster c) data" for c
    by (subst that) simp
  then show ?thesis using grid_partition [of data options] by blast
qed

theorem grid_partitions_input_witness:
  "0 < cellSize scenario1_options \<and>
   mset (concat (map points (grid scenario1_points scenario1_options))) = mset scenario1_points \<and>
   distinct (map id_cluster (grid scenario1_points scenario1_options))"
  using grid_partitions_input [of scenario1_options scenario1_points]
  by (simp add: scenario1_options_def)

text \<open>
  C5, as the code has it.  \<open>grid\<close> validates nothing: with a cell size that is zero or
  negative the call still returns a cluster list (it never throws), and the list still
  contains every input point exactly once.
\<close>

theorem grid_nonpositive_cellSize_returns:
  assumes "cellSize options \<le> 0"
  shows "\<exists>cs. grid_call data options = Inr cs \<and> mset (concat (map points cs)) = mset data"
  using grid_partition [of data options] by (simp add: grid_call_def)

theorem grid_nonpositive_cellSize_returns_witness:
  "cellSize negative_cell_options \<le> 0 \<and>
   (\<exists>cs. grid_call [\<lparr> lat = 2, lng = 3 \<rparr>] negative_cell_options = Inr cs \<and>
         mset (concat (map points cs)) = mset [\<lparr> lat = 2, lng = 3 \<rparr>])"
  using grid_nonpositive_cellSize_returns [of negative_cell_options "[\<lparr> lat = 2, lng = 3 \<rparr>]"]
  by (simp add: negative_cell_options_def)

text \<open>
  C5 as stated fails: with \<open>cellSize = -1\<close> the call returns one cluster (cell
  \<open>-2;-3\<close>) instead of throwing.
\<close>

theorem grid_negative_cellSize_counterexample:
  "grid_call [\<lparr> lat = 2, lng = 3 \<rparr>] negative_cell_options =
     Inr [\<lparr> id_cluster = ''-2;-3'', center = \<lparr> lat = 2, lng = 3 \<rparr>,
            points = [\<lparr> lat = 2, lng = 3 \<rparr>] \<rparr>]"
  by (simp add: grid_call_def grid_def fill_buckets_def bucket_push_def groupID_def
      component_def cell_index_def string_of_int_def string_of_nat_digit digit_char_def
      grid_center_def negative_cell_options_def)

section \<open>DBSCAN: one step of the expansion loop\<close>

lemma scan_neighbors_bound: "set (scan_neighbors pts options i) \<subseteq> {..<length pts}"
  by (auto simp: scan_neighbors_def)

lemma scan_neighbors_distinct: "distinct (scan_neighbors pts options i)"
  by (simp add: scan_neighbors_def)

lemma scan_neighbors_self:
  "0 < eps options \<Longrightarrow> i < length pts \<Longrightarrow> i \<in> set (scan_neighbors pts options i)"
  by (simp add: scan_neighbors_def)

lemma regionQuery_eq:
  assumes "state_ok pts options st" and "i < length pts"
  shows "regionQuery pts options i st = (scan_neighbors pts options i, cache_put pts options i st)"
proof (cases "neighborsCache st ! i")
  case None
  then show ?thesis by (simp add: regionQuery_def cache_put_def Let_def)
next
  case (Some res)
  then have res: "res = scan_neighbors pts options i"
    using assms by (simp add: state_ok_def)
  have "(neighborsCache st)[i := Some res] = neighborsCache st"
    using Some by (metis list_update_id)
  then show ?thesis using Some res by (simp add: regionQuery_def cache_put_def)
qed

lemma cache_put_fields [simp]:
  "visited (cache_put pts options i st) = visited st"
  "labels (cache_put pts options i st) = labels st"
  "corePoints (cache_put pts options i st) = corePoints st"
  "clusters (cache_put pts options i st) = clusters st"
  by (simp_all add: cache_put_def)

lemma state_ok_cache_put:
  "state_ok pts options st \<Longrightarrow> state_ok pts options (cache_put pts options i st)"
  by (cases "i < length pts") (auto simp: state_ok_def cache_put_def nth_list_update)

lemma queueIncludes_iff: "queueIncludes arr x \<longleftrightarrow> x \<in> set arr"
  by (induction arr) auto

lemma push_new_Nil [simp]: "push_new [] queue = queue"
  by (simp add: push_new_def)

lemma push_new_Cons:
  "push_new (nb # ns) queue = push_new ns (if nb \<in> set queue then queue else queue @ [nb])"
  by (simp add: push_new_def queueIncludes_iff)

lemma set_push_new: "set (push_new ns queue) = set queue \<union> set ns"
  by (induction ns arbitrary: queue) (auto simp: push_new_Cons)

lemma distinct_push_new: "distinct queue \<Longrightarrow> distinct (push_new ns queue)"
  by (induction ns arbitrary: queue) (auto simp: push_new_Cons)

lemma push_new_prefix: "prefix queue (push_new ns queue)"
proof (induction ns arbitrary: queue)
  case Nil
  then show ?case by simp
next
  case (Cons nb ns)
  have "prefix queue (if nb \<in> set queue then queue else queue @ [nb])" by simp
  then show ?case using Cons prefix_order.order_trans by (fastforce simp: push_new_Cons)
qed

lemma state_ok_visited_update:
  "state_ok pts options st \<Longrightarrow> state_ok pts options (st\<lparr> visited := (visited st)[j := b] \<rparr>)"
  by (simp add: state_ok_def)

lemma expand_step_eq:
  assumes "state_ok pts options st" and "queue ! q < length pts"
  shows "expand_step pts options cid queue q st =
     (step_queue pts options queue q st, assign cid (queue ! q) (visit pts options (queue ! q) st))"
proof -
  let ?j = "queue ! q"
  have rq: "regionQuery pts options ?j (st\<lparr> visited := (visited st)[?j := True] \<rparr>) =
      (scan_neighbors pts options ?j,
       cache_put pts options ?j (st\<lparr> visited := (visited st)[?j := True] \<rparr>))"
    by (rule regionQuery_eq [OF state_ok_visited_update [OF assms(1)] assms(2)])
  show ?thesis
    unfolding expand_step_def Let_def rq
    by (simp add: step_queue_def visit_def assign_def is_core_def Let_def)
qed

lemma visit_fields:
  "labels (visit pts options j st) = labels st"
  "clusters (visit pts options j st) = clusters st"
  "visited (visit pts options j st) = (if visited st ! j then visited st else (visited st)[j := True])"
  by (simp_all add: visit_def Let_def)

lemma visit_visited: "visited (visit pts options j st) = (visited st)[j := True]"
proof (cases "visited st ! j")
  case True
  then have "(visited st)[j := True] = visited st"
    by (metis (full_types) list_update_id)
  then show ?thesis using True by (simp add: visit_def)
next
  case False
  then show ?thesis by (simp add: visit_def Let_def)
qed

lemma state_ok_visit: "state_ok pts options st \<Longrightarrow> state_ok pts options (visit pts options j st)"
proof -
  assume ok: "state_ok pts options st"
  have 1: "state_ok pts options (cache_put pts options j (st\<lparr> visited := (visited st)[j := True] \<rparr>))"
    by (rule state_ok_cache_put [OF state_ok_visited_update [OF ok] ])
  have 2: "state_ok pts options (s\<lparr> corePoints := (corePoints s)[j := True] \<rparr>)"
    if "state_ok pts options s" for s
    using that by (simp add: state_ok_def)
  show ?thesis using ok 1 2 [OF 1] by (simp add: visit_def Let_def)
qed

lemma assign_fields:
  "visited (assign cid j st) = visited st"
  "corePoints (assign cid j st) = corePoints st"
  "neighborsCache (assign cid j st) = neighborsCache st"
  "labels (assign cid j st) = (if labels st ! j = - 1 then (labels st)[j := int cid] else labels st)"
  by (simp_all add: assign_def)

lemma state_ok_assign: "state_ok pts options st \<Longrightarrow> state_ok pts options (assign cid j st)"
  by (simp add: state_ok_def assign_fields)

section \<open>DBSCAN: the expansion loop terminates and keeps its invariant\<close>

lemma queue_ok_length: "queue_ok n queue q \<Longrightarrow> length queue \<le> n"
proof -
  assume ok: "queue_ok n queue q"
  then have "length queue = card (set queue)"
    by (simp add: queue_ok_def distinct_card)
  also have "\<dots> \<le> card {..<n}"
    using ok by (intro card_mono) (simp_all add: queue_ok_def)
  finally show ?thesis by simp
qed

lemma queue_ok_nth: "queue_ok n queue q \<Longrightarrow> k < length queue \<Longrightarrow> queue ! k < n"
  unfolding queue_ok_def using nth_mem by blast

lemma step_queue_prefix: "prefix queue (step_queue pts options queue q st)"
  by (simp add: step_queue_def push_new_prefix)

lemma step_queue_nth:
  "k < length queue \<Longrightarrow> step_queue pts options queue q st ! k = queue ! k"
  using step_queue_prefix [of queue pts options q st]
  by (auto simp: prefix_def nth_append)

lemma step_queue_set:
  "set queue \<subseteq> set (step_queue pts options queue q st)"
  by (simp add: step_queue_def set_push_new)

lemma queue_ok_step:
  assumes "queue_ok (length pts) queue q" and "q < length queue"
  shows "queue_ok (length pts) (step_queue pts options queue q st) (Suc q)"
proof -
  let ?queue' = "step_queue pts options queue q st"
  have "distinct ?queue'"
    using assms by (simp add: step_queue_def queue_ok_def distinct_push_new)
  moreover have "set ?queue' \<subseteq> {..<length pts}"
    using assms scan_neighbors_bound [of pts options "queue ! q"]
    by (auto simp: step_queue_def queue_ok_def set_push_new)
  moreover have "length queue \<le> length ?queue'"
    using step_queue_prefix [of queue pts options q st] by (rule prefix_length_le)
  ultimately show ?thesis using assms by (simp add: queue_ok_def)
qed

lemma expand_loop_rule:
  assumes inv: "I queue q st"
    and base: "\<And>queue q st. I queue q st \<Longrightarrow>
                 state_ok pts options st \<and> queue_ok (length pts) queue q"
    and step: "\<And>queue q st. I queue q st \<Longrightarrow> q < length queue \<Longrightarrow>
                 I (step_queue pts options queue q st) (Suc q)
                   (assign cid (queue ! q) (visit pts options (queue ! q) st))"
  shows "\<exists>queue' st'. expand_loop pts options cid queue q st = Some (queue', st') \<and>
           I queue' (length queue') st'"
  using inv
proof (induction "length pts - q" arbitrary: queue q st rule: less_induct)
  case less
  from base [OF less.prems]
  have ok: "state_ok pts options st" and qok: "queue_ok (length pts) queue q" by simp_all
  show ?case
  proof (cases "q < length queue")
    case True
    then have "q < length pts" using queue_ok_length [OF qok] by simp
    have j: "queue ! q < length pts" using qok True by (rule queue_ok_nth)
    have unfold: "expand_loop pts options cid queue q st =
        expand_loop pts options cid (step_queue pts options queue q st) (Suc q)
          (assign cid (queue ! q) (visit pts options (queue ! q) st))"
      by (subst expand_loop.simps) (simp add: True expand_step_eq [OF ok j])
    have "length pts - Suc q < length pts - q" using \<open>q < length pts\<close> by simp
    from less.hyps [OF this step [OF less.prems True] ] show ?thesis
      by (simp add: unfold)
  next
    case False
    then have q: "q = length queue" using qok by (simp add: queue_ok_def)
    have "expand_loop pts options cid queue q st = Some (queue, st)"
      by (subst expand_loop.simps) (simp add: False)
    then show ?thesis using less.prems q by simp
  qed
qed


lemma step_labels_nth:
  assumes "i < length (labels st)"
  shows "labels (assign cid j (visit pts options j st)) ! i =
           (if i = j \<and> labels st ! j = - 1 then int cid else labels st ! i)"
  using assms by (cases "i = j") (simp_all add: assign_fields visit_fields)

lemma step_labels_length:
  "length (labels (assign cid j (visit pts options j st))) = length (labels st)"
  by (simp add: assign_fields visit_fields)

lemma step_visited_nth:
  assumes "i < length (visited st)"
  shows "visited (assign cid j (visit pts options j st)) ! i \<longleftrightarrow> i = j \<or> visited st ! i"
  using assms by (cases "i = j") (simp_all add: assign_fields visit_visited)

lemma nth_update_True: "xs ! i \<Longrightarrow> xs[j := True] ! i"
  by (cases "i = j"; cases "j < length xs") (simp_all add: list_update_beyond)

lemma labels_ok_step:
  assumes lok: "labels_ok (Suc cid) D st" and ok: "state_ok pts options st"
    and j: "j < length pts"
  shows "labels_ok (Suc cid) D (assign cid j (visit pts options j st))"
proof -
  let ?st' = "assign cid j (visit pts options j st)"
  have len: "length (labels st) = length pts" "length (visited st) = length pts"
    using ok by (simp_all add: state_ok_def)
  have "(labels ?st' ! i = - 1 \<or> 0 \<le> labels ?st' ! i \<and> labels ?st' ! i < int (Suc cid)) \<and>
        (0 \<le> labels ?st' ! i \<longrightarrow> visited ?st' ! i)"
    if "i < length pts" for i
  proof -
    have old: "(labels st ! i = - 1 \<or> 0 \<le> labels st ! i \<and> labels st ! i < int (Suc cid)) \<and>
        (0 \<le> labels st ! i \<longrightarrow> visited st ! i)"
      using lok that len by (simp add: labels_ok_def)
    show ?thesis
      using old that len by (auto simp: step_labels_nth step_visited_nth)
  qed
  moreover have "visited ?st' ! i" if "i \<in> D" for i
  proof -
    have v: "visited st ! i" using lok that by (simp add: labels_ok_def)
    then show ?thesis by (simp add: assign_fields visit_visited nth_update_True)
  qed
  ultimately show ?thesis by (simp add: labels_ok_def step_labels_length len)
qed

lemma labels_ok_cases:
  "labels_ok k D st \<Longrightarrow> i < length (labels st) \<Longrightarrow> labels st ! i = - 1 \<or> 0 \<le> labels st ! i"
  by (auto simp: labels_ok_def)

lemma labels_ok_unvisited:
  "labels_ok k D st \<Longrightarrow> i < length (labels st) \<Longrightarrow> \<not> visited st ! i \<Longrightarrow> labels st ! i = - 1"
  by (auto simp: labels_ok_def)

lemma processed_step:
  assumes pr: "processed queue q st" and lok: "labels_ok (Suc cid) D st"
    and ok: "state_ok pts options st" and qok: "queue_ok (length pts) queue q"
    and q: "q < length queue"
  shows "processed (step_queue pts options queue q st) (Suc q)
           (assign cid (queue ! q) (visit pts options (queue ! q) st))"
proof -
  let ?j = "queue ! q"
  let ?st' = "assign cid ?j (visit pts options ?j st)"
  have len: "length (labels st) = length pts" using ok by (simp add: state_ok_def)
  have "0 \<le> labels ?st' ! (step_queue pts options queue q st ! k)" if "k < Suc q" for k
  proof -
    have k: "k < length queue" using that q by simp
    then have x: "queue ! k < length pts" using qok by (simp add: queue_ok_nth)
    have eq: "step_queue pts options queue q st ! k = queue ! k"
      using k by (rule step_queue_nth)
    have "0 \<le> labels ?st' ! (queue ! k)"
    proof (cases "k = q")
      case True
      then show ?thesis
        using labels_ok_cases [OF lok, of ?j] x len by (auto simp: step_labels_nth)
    next
      case False
      then have "k < q" using that by simp
      then have "0 \<le> labels st ! (queue ! k)" using pr by (simp add: processed_def)
      then show ?thesis using x len by (auto simp: step_labels_nth)
    qed
    then show ?thesis by (simp add: eq)
  qed
  then show ?thesis by (simp add: processed_def)
qed

lemma absorbing_step:
  assumes ab: "absorbing pts options cid queue st" and lok: "labels_ok (Suc cid) D st"
    and ok: "state_ok pts options st" and qok: "queue_ok (length pts) queue q"
    and q: "q < length queue"
  shows "absorbing pts options cid (step_queue pts options queue q st)
           (assign cid (queue ! q) (visit pts options (queue ! q) st))"
proof -
  let ?j = "queue ! q"
  let ?st' = "assign cid ?j (visit pts options ?j st)"
  let ?queue' = "step_queue pts options queue q st"
  have len: "length (labels st) = length pts" "length (visited st) = length pts"
    using ok by (simp_all add: state_ok_def)
  have j: "?j < length pts" using qok q by (rule queue_ok_nth)
  have "0 \<le> labels ?st' ! i \<and>
          (0 \<le> labels ?st' ! nb \<and> labels ?st' ! nb \<le> labels ?st' ! i \<or>
           labels ?st' ! i = int cid \<and> nb \<in> set ?queue')"
    if i: "i < length pts" and vis: "visited ?st' ! i" and core: "is_core pts options i"
      and nb: "nb \<in> set (scan_neighbors pts options i)" for i nb
  proof -
    have nbn: "nb < length pts" using nb scan_neighbors_bound [of pts options i] by auto
    show ?thesis
    proof (cases "visited st ! i")
      case True
      from ab i True core nb
      have old: "0 \<le> labels st ! i"
        "0 \<le> labels st ! nb \<and> labels st ! nb \<le> labels st ! i \<or>
           labels st ! i = int cid \<and> nb \<in> set queue"
        unfolding absorbing_def by blast+
      have li: "labels ?st' ! i = labels st ! i"
        using old(1) i len by (auto simp: step_labels_nth)
      from old(2) show ?thesis
      proof
        assume "0 \<le> labels st ! nb \<and> labels st ! nb \<le> labels st ! i"
        moreover from this have "labels ?st' ! nb = labels st ! nb"
          using nbn len by (auto simp: step_labels_nth)
        ultimately show ?thesis using li old(1) by simp
      next
        assume "labels st ! i = int cid \<and> nb \<in> set queue"
        then show ?thesis using li step_queue_set [of queue pts options q st] by auto
      qed
    next
      case False
      then have ij: "i = ?j" using vis i len by (simp add: step_visited_nth)
      have "labels st ! ?j = - 1"
        using labels_ok_unvisited [OF lok] False ij j len by simp
      then have li: "labels ?st' ! i = int cid"
        using ij j len by (simp add: step_labels_nth)
      have "?queue' = push_new (scan_neighbors pts options ?j) queue"
        using False core ij by (simp add: step_queue_def)
      then have "nb \<in> set ?queue'" using nb ij by (simp add: set_push_new)
      then show ?thesis using li by simp
    qed
  qed
  then show ?thesis unfolding absorbing_def by blast
qed

lemma reach_link: "reach pts options s a \<Longrightarrow> link pts options a b \<Longrightarrow> reach pts options s b"
  unfolding reach_def by (rule rtranclp.rtrancl_into_rtrancl)

lemma reach_refl: "reach pts options s s"
  unfolding reach_def by simp

lemma rooted_at_step:
  assumes ro: "rooted_at pts options cid seed queue st"
    and ok: "state_ok pts options st" and qok: "queue_ok (length pts) queue q"
    and q: "q < length queue"
  shows "rooted_at pts options cid seed (step_queue pts options queue q st)
           (assign cid (queue ! q) (visit pts options (queue ! q) st))"
proof -
  let ?j = "queue ! q"
  let ?st' = "assign cid ?j (visit pts options ?j st)"
  let ?queue' = "step_queue pts options queue q st"
  have len: "length (labels st) = length pts" using ok by (simp add: state_ok_def)
  have j: "?j < length pts" using qok q by (rule queue_ok_nth)
  have rj: "reach pts options seed ?j" using ro q by (simp add: rooted_at_def)
  have 1: "reach pts options seed i" if "i < length pts" "labels ?st' ! i = int cid" for i
  proof (cases "i = ?j")
    case True
    then show ?thesis using rj by simp
  next
    case False
    then have "labels st ! i = int cid" using that len by (simp add: step_labels_nth)
    then show ?thesis using ro that by (simp add: rooted_at_def)
  qed
  have 2: "reach pts options seed x" if "x \<in> set ?queue'" for x
  proof (cases "x \<in> set queue")
    case True
    then show ?thesis using ro by (simp add: rooted_at_def)
  next
    case False
    then have "is_core pts options ?j" "x \<in> set (scan_neighbors pts options ?j)"
      using that by (auto simp: step_queue_def set_push_new split: if_splits)
    then have "link pts options ?j x" using j by (simp add: link_def)
    with rj show ?thesis by (rule reach_link)
  qed
  have 3: "\<exists>s. \<forall>i < length pts. labels ?st' ! i = int c \<longrightarrow> reach pts options s i"
    if "c \<noteq> cid" for c
  proof -
    from ro that obtain s where s: "\<forall>i < length pts. labels st ! i = int c \<longrightarrow> reach pts options s i"
      unfolding rooted_at_def by blast
    have "reach pts options s i" if "i < length pts" "labels ?st' ! i = int c" for i
    proof -
      have "labels st ! i = int c"
        using that \<open>c \<noteq> cid\<close> len by (auto simp: step_labels_nth split: if_splits)
      then show ?thesis using s that by blast
    qed
    then show ?thesis by blast
  qed
  show ?thesis unfolding rooted_at_def using 1 2 3 by blast
qed

lemma loop_inv_step:
  assumes "loop_inv pts options cid seed D queue q st" and "q < length queue"
  shows "loop_inv pts options cid seed D (step_queue pts options queue q st) (Suc q)
           (assign cid (queue ! q) (visit pts options (queue ! q) st))"
proof -
  from assms(1) have ok: "state_ok pts options st"
    and qok: "queue_ok (length pts) queue q"
    and lok: "labels_ok (Suc cid) D st"
    and pr: "processed queue q st"
    and ab: "absorbing pts options cid queue st"
    and ro: "rooted_at pts options cid seed queue st"
    by (simp_all add: loop_inv_def)
  have j: "queue ! q < length pts" using qok assms(2) by (rule queue_ok_nth)
  show ?thesis
    unfolding loop_inv_def
    using state_ok_assign [OF state_ok_visit [OF ok] ] queue_ok_step [OF qok assms(2)]
      labels_ok_step [OF lok ok j] processed_step [OF pr lok ok qok assms(2)]
      absorbing_step [OF ab lok ok qok assms(2)] rooted_at_step [OF ro ok qok assms(2)]
    by blast
qed

section \<open>DBSCAN: the main loop\<close>

lemma main_step_eq:
  assumes "state_ok pts options st" and "i < length pts"
  shows "main_step pts options i (st, k) =
     (if visited st ! i then Some (st, k)
      else if \<not> is_core pts options i then Some (noise_state pts options i st, k)
      else (case expand_loop pts options k (scan_neighbors pts options i) 0
                   (seed_state pts options i k st) of
              None \<Rightarrow> None
            | Some (queue, st3) \<Rightarrow> Some (st3, k + 1)))"
proof -
  have rq: "regionQuery pts options i (st\<lparr> visited := (visited st)[i := True] \<rparr>) =
      (scan_neighbors pts options i,
       cache_put pts options i (st\<lparr> visited := (visited st)[i := True] \<rparr>))"
    by (rule regionQuery_eq [OF state_ok_visited_update [OF assms(1)] assms(2)])
  show ?thesis
    by (simp add: main_step_def rq noise_state_def seed_state_def expandCluster_def
        is_core_def Let_def not_less not_le)
qed

lemma noise_state_fields:
  "visited (noise_state pts options i st) = (visited st)[i := True]"
  "labels (noise_state pts options i st) = (labels st)[i := - 1]"
  by (simp_all add: noise_state_def Let_def)

lemma state_ok_noise_state:
  "state_ok pts options st \<Longrightarrow> state_ok pts options (noise_state pts options i st)"
  using state_ok_cache_put [OF state_ok_visited_update [of pts options st i True], of i]
  by (simp add: noise_state_def Let_def state_ok_def)

lemma seed_state_fields:
  "visited (seed_state pts options i cid st) = (visited st)[i := True]"
  "labels (seed_state pts options i cid st) = (labels st)[i := int cid]"
  by (simp_all add: seed_state_def Let_def)

lemma state_ok_seed_state:
  "state_ok pts options st \<Longrightarrow> state_ok pts options (seed_state pts options i cid st)"
  using state_ok_cache_put [OF state_ok_visited_update [of pts options st i True], of i]
  by (simp add: seed_state_def Let_def state_ok_def)


lemma nth_update_cases:
  "x < length xs \<Longrightarrow> xs[i := v] ! x = (if x = i then v else xs ! x)"
  by (cases "x = i") simp_all

lemma main_inv_fields:
  assumes "main_inv pts options D (st, k)"
  shows "state_ok pts options st" "labels_ok k D st" "absorbed pts options st"
    "rooted pts options st" "length (labels st) = length pts" "length (visited st) = length pts"
  using assms by (simp_all add: main_inv_def state_ok_def)

lemma loop_inv_init:
  assumes mi: "main_inv pts options D (st, k)" and i: "i < length pts"
    and nv: "\<not> visited st ! i" and core: "is_core pts options i"
  shows "loop_inv pts options k i (insert i D) (scan_neighbors pts options i) 0
           (seed_state pts options i k st)"
proof -
  let ?st' = "seed_state pts options i k st"
  let ?N = "scan_neighbors pts options"
  note f = main_inv_fields [OF mi]
  have lab: "labels ?st' ! x = (if x = i then int k else labels st ! x)" if "x < length pts" for x
    using that f(5) by (simp add: seed_state_fields nth_update_cases)
  have vis: "visited ?st' ! x \<longleftrightarrow> x = i \<or> visited st ! x" if "x < length pts" for x
    using that f(6) by (simp add: seed_state_fields nth_update_cases)
  have li: "labels st ! i = - 1"
    using labels_ok_unvisited [OF f(2)] i nv f(5) by simp
  have old: "(labels st ! x = - 1 \<or> 0 \<le> labels st ! x \<and> labels st ! x < int k) \<and>
        (0 \<le> labels st ! x \<longrightarrow> visited st ! x)" if "x < length pts" for x
    using f(2) that f(5) by (simp add: labels_ok_def)
  have 1: "state_ok pts options ?st'" using f(1) by (rule state_ok_seed_state)
  have 2: "queue_ok (length pts) (?N i) 0"
    using scan_neighbors_bound [of pts options i]
    by (simp add: queue_ok_def scan_neighbors_distinct)
  have 3: "labels_ok (Suc k) (insert i D) ?st'"
  proof -
    have "(labels ?st' ! x = - 1 \<or> 0 \<le> labels ?st' ! x \<and> labels ?st' ! x < int (Suc k)) \<and>
        (0 \<le> labels ?st' ! x \<longrightarrow> visited ?st' ! x)" if "x < length pts" for x
      using old [OF that] that by (auto simp: lab vis)
    moreover have "visited ?st' ! x" if "x \<in> insert i D" for x
    proof (cases "x = i")
      case True
      then show ?thesis using i by (simp add: vis)
    next
      case False
      then have "visited st ! x" using that f(2) by (simp add: labels_ok_def)
      then show ?thesis by (simp add: seed_state_fields nth_update_True)
    qed
    ultimately show ?thesis by (simp add: labels_ok_def seed_state_fields f(5))
  qed
  have 4: "processed (?N i) 0 ?st'" by (simp add: processed_def)
  have 5: "absorbing pts options k (?N i) ?st'"
  proof -
    have "0 \<le> labels ?st' ! x \<and>
          (0 \<le> labels ?st' ! nb \<and> labels ?st' ! nb \<le> labels ?st' ! x \<or>
           labels ?st' ! x = int k \<and> nb \<in> set (?N i))"
      if x: "x < length pts" and v: "visited ?st' ! x" and c: "is_core pts options x"
        and nb: "nb \<in> set (?N x)" for x nb
    proof (cases "x = i")
      case True
      then show ?thesis using nb x by (simp add: lab)
    next
      case False
      then have "visited st ! x" using v x by (simp add: vis)
      with f(3) x c nb
      have o: "0 \<le> labels st ! x" "0 \<le> labels st ! nb" "labels st ! nb \<le> labels st ! x"
        unfolding absorbed_def by blast+
      have nbn: "nb < length pts" using nb scan_neighbors_bound [of pts options x] by auto
      have "nb \<noteq> i" using o(2) li by auto
      then show ?thesis using o False x nbn by (simp add: lab)
    qed
    then show ?thesis unfolding absorbing_def by blast
  qed
  have 6: "rooted_at pts options k i (?N i) ?st'"
  proof -
    have a: "reach pts options i x" if "x < length pts" "labels ?st' ! x = int k" for x
    proof (cases "x = i")
      case True
      then show ?thesis by (simp add: reach_refl)
    next
      case False
      then have "labels st ! x = int k" using that by (simp add: lab)
      then show ?thesis using old [OF that(1)] by auto
    qed
    have b: "reach pts options i x" if "x \<in> set (?N i)" for x
    proof -
      have "link pts options i x" using that i core by (simp add: link_def)
      with reach_refl show ?thesis by (rule reach_link)
    qed
    have c: "\<exists>s. \<forall>x < length pts. labels ?st' ! x = int c \<longrightarrow> reach pts options s x"
      if "c \<noteq> k" for c
    proof -
      from f(4) obtain s where s: "\<forall>x < length pts. labels st ! x = int c \<longrightarrow> reach pts options s x"
        unfolding rooted_def by blast
      have "reach pts options s x" if "x < length pts" "labels ?st' ! x = int c" for x
      proof -
        have "labels st ! x = int c" using that \<open>c \<noteq> k\<close> by (auto simp: lab split: if_splits)
        then show ?thesis using s that by blast
      qed
      then show ?thesis by blast
    qed
    show ?thesis unfolding rooted_at_def using a b c by blast
  qed
  show ?thesis unfolding loop_inv_def using 1 2 3 4 5 6 by blast
qed

lemma main_inv_final:
  assumes li: "loop_inv pts options k seed D queue (length queue) st"
  shows "main_inv pts options D (st, Suc k)"
proof -
  from li have ok: "state_ok pts options st"
    and lok: "labels_ok (Suc k) D st"
    and pr: "processed queue (length queue) st"
    and ab: "absorbing pts options k queue st"
    and ro: "rooted_at pts options k seed queue st"
    by (simp_all add: loop_inv_def)
  have len: "length (labels st) = length pts" using ok by (simp add: state_ok_def)
  have "0 \<le> labels st ! i \<and> 0 \<le> labels st ! nb \<and> labels st ! nb \<le> labels st ! i"
    if i: "i < length pts" and v: "visited st ! i" and c: "is_core pts options i"
      and nb: "nb \<in> set (scan_neighbors pts options i)" for i nb
  proof -
    from ab i v c nb
    have o: "0 \<le> labels st ! i"
      "0 \<le> labels st ! nb \<and> labels st ! nb \<le> labels st ! i \<or>
         labels st ! i = int k \<and> nb \<in> set queue"
      unfolding absorbing_def by blast+
    from o(2) show ?thesis
    proof
      assume "0 \<le> labels st ! nb \<and> labels st ! nb \<le> labels st ! i"
      then show ?thesis using o(1) by simp
    next
      assume a: "labels st ! i = int k \<and> nb \<in> set queue"
      then obtain m where m: "m < length queue" "queue ! m = nb"
        by (auto simp: in_set_conv_nth)
      then have "0 \<le> labels st ! nb" using pr by (auto simp: processed_def)
      moreover have "nb < length pts"
        using nb scan_neighbors_bound [of pts options i] by auto
      then have "labels st ! nb = - 1 \<or> labels st ! nb < int (Suc k)"
        using lok len by (auto simp: labels_ok_def)
      ultimately show ?thesis using a o(1) by auto
    qed
  qed
  then have "absorbed pts options st" unfolding absorbed_def by blast
  moreover have "rooted pts options st"
    unfolding rooted_def
  proof
    fix c
    show "\<exists>s. \<forall>i<length pts. labels st ! i = int c \<longrightarrow> reach pts options s i"
      using ro unfolding rooted_at_def by (cases "c = k") blast+
  qed
  ultimately show ?thesis using ok lok by (simp add: main_inv_def)
qed

lemma main_inv_visited:
  assumes "main_inv pts options D (st, k)" and "visited st ! i"
  shows "main_inv pts options (insert i D) (st, k)"
  using assms by (simp add: main_inv_def labels_ok_def)

lemma main_inv_noise:
  assumes mi: "main_inv pts options D (st, k)" and i: "i < length pts"
    and nv: "\<not> visited st ! i" and core: "\<not> is_core pts options i"
  shows "main_inv pts options (insert i D) (noise_state pts options i st, k)"
proof -
  let ?st' = "noise_state pts options i st"
  note f = main_inv_fields [OF mi]
  have li: "labels st ! i = - 1"
    using labels_ok_unvisited [OF f(2)] i nv f(5) by simp
  have lab: "labels ?st' ! x = labels st ! x" if "x < length pts" for x
    using that f(5) li by (simp add: noise_state_fields nth_update_cases)
  have vis: "visited ?st' ! x \<longleftrightarrow> x = i \<or> visited st ! x" if "x < length pts" for x
    using that f(6) by (simp add: noise_state_fields nth_update_cases)
  have 1: "state_ok pts options ?st'" using f(1) by (rule state_ok_noise_state)
  have 2: "labels_ok k (insert i D) ?st'"
  proof -
    have "(labels ?st' ! x = - 1 \<or> 0 \<le> labels ?st' ! x \<and> labels ?st' ! x < int k) \<and>
        (0 \<le> labels ?st' ! x \<longrightarrow> visited ?st' ! x)" if "x < length pts" for x
      using f(2) that f(5) by (auto simp: lab vis labels_ok_def)
    moreover have "visited ?st' ! x" if "x \<in> insert i D" for x
    proof (cases "x = i")
      case True
      then show ?thesis using i by (simp add: vis)
    next
      case False
      then have "visited st ! x" using that f(2) by (simp add: labels_ok_def)
      then show ?thesis by (simp add: noise_state_fields nth_update_True)
    qed
    ultimately show ?thesis by (simp add: labels_ok_def noise_state_fields f(5))
  qed
  have 3: "absorbed pts options ?st'"
  proof -
    have "0 \<le> labels ?st' ! x \<and> 0 \<le> labels ?st' ! nb \<and> labels ?st' ! nb \<le> labels ?st' ! x"
      if x: "x < length pts" and v: "visited ?st' ! x" and c: "is_core pts options x"
        and nb: "nb \<in> set (scan_neighbors pts options x)" for x nb
    proof -
      have "x \<noteq> i" using c core by auto
      then have "visited st ! x" using v x by (simp add: vis)
      with f(3) x c nb
      have o: "0 \<le> labels st ! x" "0 \<le> labels st ! nb" "labels st ! nb \<le> labels st ! x"
        unfolding absorbed_def by blast+
      have nbn: "nb < length pts" using nb scan_neighbors_bound [of pts options x] by auto
      show ?thesis using o x nbn by (simp add: lab)
    qed
    then show ?thesis unfolding absorbed_def by blast
  qed
  have 4: "rooted pts options ?st'"
    using f(4) unfolding rooted_def by (simp add: lab)
  show ?thesis using 1 2 3 4 by (simp add: main_inv_def)
qed

lemma main_step_inv:
  assumes mi: "main_inv pts options D s" and i: "i < length pts"
  shows "\<exists>s'. main_step pts options i s = Some s' \<and> main_inv pts options (insert i D) s'"
proof -
  obtain st k where s: "s = (st, k)" by (cases s)
  note mi' = mi [unfolded s]
  have ok: "state_ok pts options st" using mi' by (rule main_inv_fields)
  show ?thesis
  proof (cases "visited st ! i")
    case True
    then show ?thesis
      using main_inv_visited [OF mi' True] by (simp add: s main_step_eq [OF ok i])
  next
    case nv: False
    show ?thesis
    proof (cases "is_core pts options i")
      case False
      then show ?thesis
        using main_inv_noise [OF mi' i nv False] nv by (simp add: s main_step_eq [OF ok i])
    next
      case True
      have "\<exists>queue' st'. expand_loop pts options k (scan_neighbors pts options i) 0
               (seed_state pts options i k st) = Some (queue', st') \<and>
             loop_inv pts options k i (insert i D) queue' (length queue') st'"
      proof (rule expand_loop_rule)
        show "loop_inv pts options k i (insert i D) (scan_neighbors pts options i) 0
                (seed_state pts options i k st)"
          by (rule loop_inv_init [OF mi' i nv True])
      next
        fix queue q st
        assume "loop_inv pts options k i (insert i D) queue q st"
        then show "state_ok pts options st \<and> queue_ok (length pts) queue q"
          by (simp add: loop_inv_def)
      next
        fix queue q st
        assume "loop_inv pts options k i (insert i D) queue q st" "q < length queue"
        then show "loop_inv pts options k i (insert i D) (step_queue pts options queue q st)
             (Suc q) (assign k (queue ! q) (visit pts options (queue ! q) st))"
          by (rule loop_inv_step)
      qed
      then obtain queue' st' where
        r: "expand_loop pts options k (scan_neighbors pts options i) 0
               (seed_state pts options i k st) = Some (queue', st')"
        and l: "loop_inv pts options k i (insert i D) queue' (length queue') st'"
        by blast
      show ?thesis
        using main_inv_final [OF l] nv True by (simp add: s main_step_eq [OF ok i] r)
    qed
  qed
qed

lemma main_loop_inv:
  assumes "main_inv pts options D s" and "set is \<subseteq> {..<length pts}"
  shows "\<exists>s'. main_loop pts options is s = Some s' \<and> main_inv pts options (D \<union> set is) s'"
  using assms
proof (induction "is" arbitrary: D s)
  case Nil
  then show ?case by simp
next
  case (Cons i "is")
  then have i: "i < length pts" by simp
  from main_step_inv [OF Cons.prems(1) i] obtain s1 where
    s1: "main_step pts options i s = Some s1" "main_inv pts options (insert i D) s1"
    by blast
  from Cons.IH [OF s1(2)] Cons.prems(2) obtain s' where
    "main_loop pts options is s1 = Some s'" "main_inv pts options (insert i D \<union> set is) s'"
    by auto
  then show ?case using s1(1) by simp
qed

lemma main_inv_init: "main_inv pts options {} (init_state (length pts), 0)"
  by (simp add: main_inv_def init_state_def state_ok_def labels_ok_def absorbed_def rooted_def)

lemma dbscan_run_inv:
  "\<exists>st k. dbscan_run pts options = Some (st, k) \<and>
          main_inv pts options {..<length pts} (st, k)"
proof -
  have sub: "set [0..<length pts] \<subseteq> {..<length pts}" by auto
  have all: "{} \<union> set [0..<length pts] = {..<length pts}" by auto
  from main_loop_inv [OF main_inv_init sub, of options]
  obtain s' where "main_loop pts options [0..<length pts] (init_state (length pts), 0) = Some s'"
    "main_inv pts options {..<length pts} s'"
    unfolding all by blast
  then show ?thesis by (cases s') (simp add: dbscan_run_def)
qed

section \<open>\<open>groupByCluster\<close> in closed form\<close>

lemma group_fold:
  "fold (\<lambda>i m. let lbl = lbls ! i in if lbl < 0 then m else bucket_push m lbl (items ! i)) is b =
   fold (\<lambda>(k, x) b. bucket_push b k x)
     (map (\<lambda>i. (lbls ! i, items ! i)) (filter (\<lambda>i. \<not> lbls ! i < 0) is)) b"
  by (induction "is" arbitrary: b) (simp_all add: Let_def)

lemma groupByCluster_push_all:
  "groupByCluster items lbls = map snd (sort_key fst (push_all (labelled items lbls)))"
  by (simp add: groupByCluster_def group_fold push_all_def labelled_def)

lemma items_of_labelled:
  "items_of k (labelled items lbls) =
     map (nth items) (filter (\<lambda>i. lbls ! i = k \<and> \<not> lbls ! i < 0) [0..<length items])"
proof -
  have "items_of k (map (\<lambda>i. (lbls ! i, items ! i)) (filter P is)) =
        map (nth items) (filter (\<lambda>i. lbls ! i = k \<and> P i) is)" for P "is"
    by (induction "is") (auto simp: items_of_def)
  then show ?thesis by (simp add: labelled_def)
qed

lemma keys_labelled:
  "fst ` set (labelled items lbls) = set (cluster_keys (length items) lbls)"
proof -
  have "fst ` set (labelled items lbls) = {lbls ! i |i. i < length items \<and> 0 \<le> lbls ! i}"
    by (force simp: labelled_def image_iff not_less)
  moreover have "set (cluster_keys (length items) lbls) =
      {lbls ! i |i. i < length items \<and> 0 \<le> lbls ! i}"
    by (auto simp: cluster_keys_def)
  ultimately show ?thesis by simp
qed

lemma cluster_keys_sorted: "sorted (cluster_keys n lbls)" "distinct (cluster_keys n lbls)"
  by (simp_all add: cluster_keys_def)

lemma cluster_keys_nonneg: "k \<in> set (cluster_keys n lbls) \<Longrightarrow> 0 \<le> k"
  by (auto simp: cluster_keys_def)

lemma groupByCluster_closed_form:
  "groupByCluster items lbls =
     map (\<lambda>k. map (nth items) (members (length items) lbls k)) (cluster_keys (length items) lbls)"
proof -
  let ?kxs = "labelled items lbls"
  let ?b = "push_all ?kxs"
  let ?sb = "sort_key fst ?b"
  let ?n = "length items"
  have ok: "buckets_ok ?kxs ?b" by (rule push_all_ok)
  have keys_b: "fst ` set ?b = set (cluster_keys ?n lbls)"
    using ok keys_labelled [of items lbls] by (simp add: buckets_ok_def)
  have "mset (map fst ?sb) = mset (map fst ?b)" by simp
  then have "distinct (map fst ?sb) \<longleftrightarrow> distinct (map fst ?b)"
    by (rule mset_eq_imp_distinct_iff)
  then have d: "distinct (map fst ?sb)" using ok by (simp add: buckets_ok_def)
  have s: "sorted (map fst ?sb)" by (rule sorted_sort_key)
  have "set (map fst ?sb) = set (cluster_keys ?n lbls)" using keys_b by simp
  then have keys: "map fst ?sb = cluster_keys ?n lbls"
    using s d cluster_keys_sorted [of ?n lbls] by (intro sorted_distinct_set_unique)
  have entry: "snd e = map (nth items) (members ?n lbls (fst e))" if "e \<in> set ?sb" for e
  proof -
    have "(fst e, snd e) \<in> set ?b" using that by simp
    from buckets_okD [OF ok this] have "items_of (fst e) ?kxs = snd e" by simp
    moreover have "0 \<le> fst e"
      using that keys_b by (intro cluster_keys_nonneg [of _ ?n lbls]) force
    then have "filter (\<lambda>i. lbls ! i = fst e \<and> \<not> lbls ! i < 0) [0..<?n] = members ?n lbls (fst e)"
      unfolding members_def by (intro filter_cong) auto
    ultimately show ?thesis by (simp add: items_of_labelled)
  qed
  have "groupByCluster items lbls = map snd ?sb" by (rule groupByCluster_push_all)
  also have "\<dots> = map (\<lambda>e. map (nth items) (members ?n lbls (fst e))) ?sb"
    using entry by (intro map_cong) auto
  also have "\<dots> = map (\<lambda>k. map (nth items) (members ?n lbls k)) (map fst ?sb)"
    by (simp add: o_def)
  finally show ?thesis by (simp add: keys)
qed

lemma map_nth_upt: "set xs \<subseteq> {..<n} \<Longrightarrow> map (nth [0..<n]) xs = xs"
  by (induction xs) auto

lemma members_bound: "set (members n lbls k) \<subseteq> {..<n}"
  by (auto simp: members_def)

lemma groupByCluster_indices:
  "groupByCluster [0..<n] lbls = map (members n lbls) (cluster_keys n lbls)"
  by (simp add: groupByCluster_closed_form map_nth_upt members_bound)

lemma groupByCluster_via_indices:
  "groupByCluster items lbls = map (map (nth items)) (groupByCluster [0..<length items] lbls)"
  by (simp add: groupByCluster_indices groupByCluster_closed_form [of items])

lemma cluster_keys_iff:
  "k \<in> set (cluster_keys n lbls) \<longleftrightarrow> 0 \<le> k \<and> (\<exists>i<n. lbls ! i = k)"
  by (auto simp: cluster_keys_def)

lemma members_iff: "i \<in> set (members n lbls k) \<longleftrightarrow> i < n \<and> lbls ! i = k"
  by (auto simp: members_def)

lemma indices_member_iff:
  "i \<in> set (concat (groupByCluster [0..<n] lbls)) \<longleftrightarrow> i < n \<and> 0 \<le> lbls ! i"
  by (auto simp: groupByCluster_indices members_iff cluster_keys_iff)

lemma distinct_members: "distinct (members n lbls k)"
  by (simp add: members_def)

lemma indices_distinct: "distinct (concat (groupByCluster [0..<n] lbls))"
proof -
  have "distinct (concat (map (members n lbls) ks))" if "distinct ks" for ks
    using that
  proof (induction ks)
    case Nil
    then show ?case by simp
  next
    case (Cons k ks)
    then show ?case by (auto simp: distinct_members members_iff)
  qed
  then show ?thesis by (simp add: groupByCluster_indices cluster_keys_sorted)
qed

section \<open>DBSCAN: what a run establishes\<close>

lemma dbscan_labels_run:
  "dbscan_run pts options = Some (st, k) \<Longrightarrow> dbscan_labels pts options = Some (labels st)"
  by (simp add: dbscan_labels_def)

lemma dbscan_via_labels:
  assumes "dbscan_labels pts options = Some lbls" and "0 < eps options" and "1 \<le> minPts options"
  shows "dbscan pts options = Some (Inr (mk_clusters (coord options) (groupByCluster pts lbls)))"
proof -
  from assms(1) obtain st k where r: "dbscan_run pts options = Some (st, k)" and l: "lbls = labels st"
    by (auto simp: dbscan_labels_def)
  show ?thesis unfolding dbscan_def r mk_clusters_def l using assms(2,3) by simp
qed

lemma points_mk_clusters: "map points (mk_clusters crd groups) = groups"
proof -
  have "map points (mk_clusters crd groups) = map snd (enumerate 0 groups)"
    by (simp add: mk_clusters_def case_prod_unfold o_def)
  then show ?thesis by simp
qed

lemma center_mk_clusters:
  "c \<in> set (mk_clusters crd groups) \<Longrightarrow> center c = dbscan_center crd (points c)"
  by (auto simp: mk_clusters_def)

lemma dbscan_center_mean:
  "dbscan_center crd ps =
     \<lparr> lat = sum_list (map (\<lambda>p. lat (crd p)) ps) / real (length ps),
       lng = sum_list (map (\<lambda>p. lng (crd p)) ps) / real (length ps) \<rparr>"
  by (simp add: dbscan_center_def foldl_add_sum)

lemma dbscan_labels_facts:
  "\<exists>lbls. dbscan_labels pts options = Some lbls \<and> length lbls = length pts \<and>
     (\<forall>i < length pts. lbls ! i = - 1 \<or> 0 \<le> lbls ! i) \<and>
     (\<forall>i nb. i < length pts \<longrightarrow> is_core pts options i \<longrightarrow>
        nb \<in> set (scan_neighbors pts options i) \<longrightarrow>
          0 \<le> lbls ! i \<and> 0 \<le> lbls ! nb \<and> lbls ! nb \<le> lbls ! i) \<and>
     (\<forall>c. \<exists>s. \<forall>i < length pts. lbls ! i = int c \<longrightarrow> reach pts options s i)"
proof -
  from dbscan_run_inv [of pts options] obtain st k where
    r: "dbscan_run pts options = Some (st, k)"
    and mi: "main_inv pts options {..<length pts} (st, k)"
    by blast
  note f = main_inv_fields [OF mi]
  have v: "visited st ! i" if "i < length pts" for i
    using f(2) that by (simp add: labels_ok_def)
  have 1: "\<forall>i < length pts. labels st ! i = - 1 \<or> 0 \<le> labels st ! i"
    using f(2) f(5) by (auto simp: labels_ok_def)
  have 2: "\<forall>i nb. i < length pts \<longrightarrow> is_core pts options i \<longrightarrow>
        nb \<in> set (scan_neighbors pts options i) \<longrightarrow>
          0 \<le> labels st ! i \<and> 0 \<le> labels st ! nb \<and> labels st ! nb \<le> labels st ! i"
    using f(3) v unfolding absorbed_def by blast
  have 3: "\<forall>c. \<exists>s. \<forall>i < length pts. labels st ! i = int c \<longrightarrow> reach pts options s i"
    using f(4) unfolding rooted_def by blast
  show ?thesis using dbscan_labels_run [OF r] f(5) 1 2 3 by blast
qed

section \<open>Evaluating the code on concrete inputs\<close>

lemmas dbscan_eval =
  dbscan_labels_def dbscan_run_def init_state_def main_step_def regionQuery_def
  scan_neighbors_def buildDistance_def expandCluster_def expand_loop.simps expand_step_def
  push_new_def Let_def

lemmas group_eval = groupByCluster_def bucket_push_def Let_def

lemma labels_scenario3: "dbscan_labels scenario3_points scenario3_options = Some [0, 0, 0, 0]"
  by (simp add: dbscan_eval scenario3_points_def scenario3_options_def euclidean_def)

lemma neighbors_scenario3:
  "i < 4 \<Longrightarrow> scan_neighbors scenario3_points scenario3_options i = [0, 1, 2, 3]"
proof -
  assume "i < 4"
  then have "i = 0 \<or> i = 1 \<or> i = 2 \<or> i = 3" by auto
  then show ?thesis
    by (auto simp: scan_neighbors_def buildDistance_def scenario3_points_def
        scenario3_options_def euclidean_def)
qed

text \<open>
  C1, on the code.  Scenario 3: eps = 1, minPts = 5, four points within distance 1 of
  each other.  Each neighbour list has the 4 members the claim counts (the point itself
  included), fewer than minPts; the code tests \<open>neigh.length + 1 < minPts\<close>, that is
  \<open>5 < 5\<close>, so the first point starts a cluster and \<open>dbscan\<close> returns one cluster with
  all four points and no noise.
\<close>

theorem dbscan_scenario3_returns_cluster:
  "scan_neighbors scenario3_points scenario3_options 0 = [0, 1, 2, 3] \<and>
   dbscan_labels scenario3_points scenario3_options = Some [0, 0, 0, 0] \<and>
   noise_of [0, 0, 0, 0] = [] \<and>
   dbscan scenario3_points scenario3_options =
     Some (Inr [\<lparr> id_cluster = ''0'', center = \<lparr> lat = 1 / 4, lng = 1 / 4 \<rparr>,
                  points = scenario3_points \<rparr>])"
proof -
  have g: "groupByCluster scenario3_points [0, 0, 0, 0] = [scenario3_points]"
    by (simp add: scenario3_points_def group_eval)
  have "dbscan scenario3_points scenario3_options =
      Some (Inr (mk_clusters (coord scenario3_options) [scenario3_points]))"
    using dbscan_via_labels [OF labels_scenario3] by (simp add: g scenario3_options_def)
  then have "dbscan scenario3_points scenario3_options =
     Some (Inr [\<lparr> id_cluster = ''0'', center = \<lparr> lat = 1 / 4, lng = 1 / 4 \<rparr>,
                  points = scenario3_points \<rparr>])"
    by (simp add: mk_clusters_def dbscan_center_def string_of_nat_0 scenario3_options_def
        scenario3_points_def)
  moreover have "noise_of [0, 0, 0, 0] = []" by (simp add: noise_of_def)
  ultimately show ?thesis using labels_scenario3 neighbors_scenario3 [of 0] by simp
qed

section \<open>DBSCAN: exclusivity and centers\<close>

lemma set_noise_of: "set (noise_of lbls) = {i. i < length lbls \<and> lbls ! i = - 1}"
  by (auto simp: noise_of_def)

lemma labels_four: "dbscan_labels [0, 1, 2, 3] (line_options 4 5) = Some [0, 0, 0, 0]"
  by (simp add: dbscan_eval line_options_def)

text \<open>
  C6.  With valid options \<open>dbscan\<close> returns, and the returned clusters are the index
  clusters \<open>idx\<close> read through the input.  No input position occurs twice in one
  cluster or in two clusters, and every position is either noise (label \<open>-1\<close>) or in
  a cluster, never both.  When the input points are pairwise different, no point value
  is repeated in the returned clusters either.
\<close>

theorem dbscan_exclusive:
  assumes "0 < eps options" and "1 \<le> minPts options"
  shows "\<exists>cs lbls idx.
           dbscan pts options = Some (Inr cs) \<and>
           dbscan_labels pts options = Some lbls \<and>
           dbscan_indices pts options = Some idx \<and>
           length lbls = length pts \<and>
           map points cs = map (map (nth pts)) idx \<and>
           distinct (concat idx) \<and>
           set (concat idx) \<union> set (noise_of lbls) = {..<length pts} \<and>
           set (concat idx) \<inter> set (noise_of lbls) = {} \<and>
           (distinct pts \<longrightarrow> distinct (concat (map points cs)))"
proof -
  from dbscan_labels_facts [of pts options] obtain lbls where
    l: "dbscan_labels pts options = Some lbls" and len: "length lbls = length pts"
    and dich: "\<forall>i < length pts. lbls ! i = - 1 \<or> 0 \<le> lbls ! i"
    by blast
  let ?idx = "groupByCluster [0..<length pts] lbls"
  let ?cs = "mk_clusters (coord options) (groupByCluster pts lbls)"
  have 1: "dbscan pts options = Some (Inr ?cs)"
    using l assms by (rule dbscan_via_labels)
  have 2: "dbscan_indices pts options = Some ?idx"
    by (simp add: dbscan_indices_def l)
  have 3: "map points ?cs = map (map (nth pts)) ?idx"
    by (simp add: points_mk_clusters groupByCluster_via_indices [of pts])
  have 4: "distinct (concat ?idx)" by (rule indices_distinct)
  have mem: "set (concat ?idx) = {i. i < length pts \<and> 0 \<le> lbls ! i}"
    using indices_member_iff [of _ "length pts" lbls] by blast
  have 5: "set (concat ?idx) \<union> set (noise_of lbls) = {..<length pts}"
    unfolding mem set_noise_of len using dich by auto
  have 6: "set (concat ?idx) \<inter> set (noise_of lbls) = {}"
    unfolding mem set_noise_of by auto
  have 7: "distinct (concat (map points ?cs))" if "distinct pts"
  proof -
    have "concat (map points ?cs) = map (nth pts) (concat ?idx)"
      by (simp add: 3 map_concat)
    moreover have "inj_on (nth pts) (set (concat ?idx))"
      unfolding mem using that by (intro inj_on_nth) auto
    ultimately show ?thesis using 4 by (simp add: distinct_map)
  qed
  show ?thesis using 1 l 2 len 3 4 5 6 7 by blast
qed

theorem dbscan_exclusive_witness:
  "0 < eps (line_options 4 5) \<and> 1 \<le> minPts (line_options 4 5) \<and> distinct [0, 1, 2, 3 :: int] \<and>
   (\<exists>cs. dbscan [0, 1, 2, 3] (line_options 4 5) = Some (Inr cs) \<and>
         distinct (concat (map points cs)))"
proof -
  have h: "0 < eps (line_options 4 5)" "1 \<le> minPts (line_options 4 5)"
    by (simp_all add: line_options_def)
  from dbscan_exclusive [OF h, of "[0, 1, 2, 3]"] show ?thesis using h by auto
qed

lemma dbscan_Inr_clusters:
  assumes "dbscan pts options = Some (Inr cs)"
  shows "\<exists>groups. cs = mk_clusters (coord options) groups"
proof (cases "dbscan_run pts options")
  case None
  then show ?thesis using assms by (simp add: dbscan_def split: if_splits)
next
  case (Some s)
  obtain st k where "s = (st, k)" by (cases s)
  then have r: "dbscan_run pts options = Some (st, k)" using Some by simp
  have "cs = mk_clusters (coord options) (groupByCluster pts (labels st))"
    using assms unfolding dbscan_def r mk_clusters_def by (simp split: if_splits)
  then show ?thesis by blast
qed

lemma dbscan_four:
  "dbscan [0, 1, 2, 3] (line_options 4 5) =
     Some (Inr [\<lparr> id_cluster = ''0'', center = \<lparr> lat = 3 / 2, lng = 0 \<rparr>, points = [0, 1, 2, 3] \<rparr>])"
proof -
  have g: "groupByCluster [0, 1, 2, 3 :: int] [0, 0, 0, 0] = [ [0, 1, 2, 3] ]"
    by (simp add: group_eval)
  have h: "0 < eps (line_options 4 5)" "1 \<le> minPts (line_options 4 5)"
    by (simp_all add: line_options_def)
  have "dbscan [0, 1, 2, 3] (line_options 4 5) =
      Some (Inr (mk_clusters (coord (line_options 4 5)) [ [0, 1, 2, 3] ]))"
    using dbscan_via_labels [OF labels_four h] by (simp add: g)
  then show ?thesis
    by (simp add: mk_clusters_def dbscan_center_def string_of_nat_0 line_options_def)
qed

text \<open>
  C9.  Every cluster returned by \<open>grid\<close> or by \<open>dbscan\<close> has as center the sum of the
  member latitudes and longitudes divided by the member count; nothing but \<open>lat\<close> and
  \<open>lng\<close> of a point (for \<open>dbscan\<close>: of its \<open>coord\<close>) enters.  Scenario 1 returns one
  cluster with both points and center (0, 0.0005).
\<close>

theorem centers_are_means:
  "(\<forall>c \<in> set (grid data goptions).
      center c = \<lparr> lat = sum_list (map lat (points c)) / real (length (points c)),
                   lng = sum_list (map lng (points c)) / real (length (points c)) \<rparr>) \<and>
   (\<forall>cs. dbscan pts options = Some (Inr cs) \<longrightarrow>
      (\<forall>c \<in> set cs.
         center c = \<lparr> lat = sum_list (map (\<lambda>p. lat (coord options p)) (points c)) / real (length (points c)),
                      lng = sum_list (map (\<lambda>p. lng (coord options p)) (points c)) / real (length (points c)) \<rparr>)) \<and>
   grid scenario1_points scenario1_options =
     [\<lparr> id_cluster = ''0;0'', center = \<lparr> lat = 0, lng = 0.0005 \<rparr>, points = scenario1_points \<rparr>]"
proof -
  have 1: "center c = \<lparr> lat = sum_list (map lat (points c)) / real (length (points c)),
                   lng = sum_list (map lng (points c)) / real (length (points c)) \<rparr>"
    if "c \<in> set (grid data goptions)" for c
    using grid_centers [OF that] by (simp add: grid_center_mean)
  have 2: "center c = \<lparr> lat = sum_list (map (\<lambda>p. lat (coord options p)) (points c)) / real (length (points c)),
                      lng = sum_list (map (\<lambda>p. lng (coord options p)) (points c)) / real (length (points c)) \<rparr>"
    if "dbscan pts options = Some (Inr cs)" "c \<in> set cs" for cs c
  proof -
    from dbscan_Inr_clusters [OF that(1)] obtain groups where
      "cs = mk_clusters (coord options) groups" by blast
    then have "center c = dbscan_center (coord options) (points c)"
      using that(2) by (simp add: center_mk_clusters)
    then show ?thesis by (simp add: dbscan_center_mean)
  qed
  show ?thesis using 1 2 grid_scenario1 by blast
qed

theorem centers_are_means_witness:
  "center (hd (grid scenario1_points scenario1_options)) = \<lparr> lat = 0, lng = 0.0005 \<rparr> \<and>
   dbscan [0, 1, 2, 3] (line_options 4 5) =
     Some (Inr [\<lparr> id_cluster = ''0'', center = \<lparr> lat = 3 / 2, lng = 0 \<rparr>, points = [0, 1, 2, 3] \<rparr>]) \<and>
   \<lparr> lat = 3 / 2, lng = 0 \<rparr> =
     \<lparr> lat = sum_list (map (\<lambda>p. lat (coord (line_options 4 5) p)) [0, 1, 2, 3]) / real (length [0, 1, 2, 3 :: int]),
       lng = sum_list (map (\<lambda>p. lng (coord (line_options 4 5) p)) [0, 1, 2, 3]) / real (length [0, 1, 2, 3 :: int]) \<rparr>"
  using centers_are_means [of scenario1_points scenario1_options "[0, 1, 2, 3]" "line_options 4 5"]
    dbscan_four
  by (simp add: line_options_def)

section \<open>DBSCAN: termination and the size of the queue\<close>

lemma expansion_reaches_ok:
  assumes "expansion_reaches pts options cid c c'"
    and "state_ok pts options (snd (snd c))"
    and "queue_ok (length pts) (fst c) (fst (snd c))"
  shows "state_ok pts options (snd (snd c')) \<and> queue_ok (length pts) (fst c') (fst (snd c'))"
  using assms
proof (induction rule: expansion_reaches.induct)
  case start
  then show ?case by simp
next
  case (iterate queue q st queue' st')
  then have ok: "state_ok pts options st" and qok: "queue_ok (length pts) queue q"
    by simp_all
  have j: "queue ! q < length pts" using qok iterate.hyps(2) by (rule queue_ok_nth)
  from iterate.hyps(3) expand_step_eq [OF ok j, of cid]
  have q': "queue' = step_queue pts options queue q st"
    and st': "st' = assign cid (queue ! q) (visit pts options (queue ! q) st)"
    by simp_all
  show ?case
    using state_ok_assign [OF state_ok_visit [OF ok] ] queue_ok_step [OF qok iterate.hyps(2)]
    by (simp add: q' st')
qed

lemma state_ok_enter:
  "state_ok pts options st \<Longrightarrow>
   state_ok pts options (st\<lparr> labels := (labels st)[i := l], corePoints := (corePoints st)[i := b],
                               clusters := f \<rparr>)"
  by (simp add: state_ok_def)

lemma expandCluster_returns:
  assumes ok: "state_ok pts options st" and seed: "seed < length pts"
  shows "\<exists>queue st'. expandCluster pts options seed (scan_neighbors pts options seed) cid st =
            Some (queue, st') \<and> distinct queue \<and> length queue \<le> length pts"
proof -
  let ?I = "\<lambda>queue q st. state_ok pts options st \<and> queue_ok (length pts) queue q"
  let ?st0 = "st\<lparr> labels := (labels st)[seed := int cid],
                 corePoints := (corePoints st)[seed := True],
                 clusters := (clusters st)(cid := clusters st cid @ [seed]) \<rparr>"
  have "\<exists>queue' st'. expand_loop pts options cid (scan_neighbors pts options seed) 0 ?st0 =
          Some (queue', st') \<and> ?I queue' (length queue') st'"
  proof (rule expand_loop_rule [where I = ?I])
    show "?I (scan_neighbors pts options seed) 0 ?st0"
      using state_ok_enter [OF ok] scan_neighbors_bound [of pts options seed]
      by (simp add: queue_ok_def scan_neighbors_distinct)
  next
    fix queue q st
    assume "?I queue q st"
    then show "state_ok pts options st \<and> queue_ok (length pts) queue q" .
  next
    fix queue q st
    assume "?I queue q st" "q < length queue"
    then show "?I (step_queue pts options queue q st) (Suc q)
        (assign cid (queue ! q) (visit pts options (queue ! q) st))"
      using state_ok_assign [OF state_ok_visit] queue_ok_step by blast
  qed
  then obtain queue' st' where
    "expand_loop pts options cid (scan_neighbors pts options seed) 0 ?st0 = Some (queue', st')"
    "queue_ok (length pts) queue' (length queue')"
    by blast
  then show ?thesis
    using queue_ok_length [of "length pts" queue' "length queue'"]
    by (auto simp: expandCluster_def queue_ok_def)
qed

text \<open>
  C10.  With valid options \<open>dbscan\<close> returns.  \<open>expandCluster\<close>, entered with the
  neighbour list of a seed in any state whose arrays have the length of the input and
  whose cache holds scan results, returns; in every configuration its loop passes
  through, the queue has no duplicate and at most \<open>n\<close> entries, and the loop counter
  \<open>q\<close> (the number of iterations performed so far) does not exceed the queue length.
\<close>

theorem dbscan_terminates:
  assumes "0 < eps options" and "1 \<le> minPts options"
  shows "(\<exists>cs. dbscan pts options = Some (Inr cs)) \<and>
         (\<forall>st seed cid. state_ok pts options st \<longrightarrow> seed < length pts \<longrightarrow>
            (\<exists>queue st'. expandCluster pts options seed (scan_neighbors pts options seed) cid st =
                 Some (queue, st') \<and> distinct queue \<and> length queue \<le> length pts) \<and>
            (\<forall>queue q st'.
               expansion_reaches pts options cid (scan_neighbors pts options seed, 0, st) (queue, q, st') \<longrightarrow>
                 distinct queue \<and> q \<le> length queue \<and> length queue \<le> length pts))"
proof -
  from dbscan_labels_facts [of pts options] obtain lbls where
    "dbscan_labels pts options = Some lbls" by blast
  from dbscan_via_labels [OF this assms]
  have 1: "\<exists>cs. dbscan pts options = Some (Inr cs)" by blast
  have 2: "distinct queue \<and> q \<le> length queue \<and> length queue \<le> length pts"
    if ok: "state_ok pts options st" and "seed < length pts"
      and r: "expansion_reaches pts options cid (scan_neighbors pts options seed, 0, st) (queue, q, st')"
    for st seed cid queue q st'
  proof -
    have "queue_ok (length pts) (scan_neighbors pts options seed) 0"
      using scan_neighbors_bound [of pts options seed]
      by (simp add: queue_ok_def scan_neighbors_distinct)
    with expansion_reaches_ok [OF r] ok have qok: "queue_ok (length pts) queue q" by simp
    then show ?thesis using queue_ok_length [OF qok] by (simp add: queue_ok_def)
  qed
  show ?thesis using 1 2 expandCluster_returns by blast
qed

theorem dbscan_terminates_witness:
  "0 < eps (line_options 4 5) \<and> 1 \<le> minPts (line_options 4 5) \<and>
   (\<exists>cs. dbscan [0, 1, 2, 3] (line_options 4 5) = Some (Inr cs)) \<and>
   (\<exists>queue st'.
      expandCluster [0, 1, 2, 3] (line_options 4 5) 0
        (scan_neighbors [0, 1, 2, 3] (line_options 4 5) 0) 0 (init_state 4) = Some (queue, st') \<and>
      distinct queue \<and> length queue \<le> 4)"
proof -
  have h: "0 < eps (line_options 4 5)" "1 \<le> minPts (line_options 4 5)"
    by (simp_all add: line_options_def)
  have ok: "state_ok [0, 1, 2, 3] (line_options 4 5) (init_state 4)"
    by (simp add: state_ok_def init_state_def)
  have n: "(0::nat) < length [0, 1, 2, 3 :: int]" by simp
  from dbscan_terminates [OF h, of "[0, 1, 2, 3]"]
  have a: "\<exists>cs. dbscan [0, 1, 2, 3] (line_options 4 5) = Some (Inr cs)"
    and b: "\<forall>st seed cid. state_ok [0, 1, 2, 3] (line_options 4 5) st \<longrightarrow>
            seed < length [0, 1, 2, 3 :: int] \<longrightarrow>
            (\<exists>queue st'. expandCluster [0, 1, 2, 3] (line_options 4 5) seed
                  (scan_neighbors [0, 1, 2, 3] (line_options 4 5) seed) cid st =
                 Some (queue, st') \<and> distinct queue \<and> length queue \<le> length [0, 1, 2, 3 :: int])"
    by blast+
  have four: "length [0, 1, 2, 3 :: int] = 4" by simp
  from b ok n have x: "\<exists>queue st'. expandCluster [0, 1, 2, 3] (line_options 4 5) 0
                  (scan_neighbors [0, 1, 2, 3] (line_options 4 5) 0) 0 (init_state 4) =
                 Some (queue, st') \<and> distinct queue \<and> length queue \<le> length [0, 1, 2, 3 :: int]"
    by blast
  show ?thesis using h a x [unfolded four] by blast
qed

section \<open>DBSCAN: what happens to the neighbours of a core point\<close>

lemma cluster_position:
  assumes "i < n" and "0 \<le> lbls ! i"
  shows "\<exists>a < length (cluster_keys n lbls). cluster_keys n lbls ! a = lbls ! i \<and>
           i \<in> set (groupByCluster [0..<n] lbls ! a)"
proof -
  have "lbls ! i \<in> set (cluster_keys n lbls)"
    using assms by (auto simp: cluster_keys_iff)
  then obtain a where a: "a < length (cluster_keys n lbls)" "cluster_keys n lbls ! a = lbls ! i"
    by (auto simp: in_set_conv_nth)
  then have "groupByCluster [0..<n] lbls ! a = members n lbls (lbls ! i)"
    by (simp add: groupByCluster_indices)
  then show ?thesis using a assms by (auto simp: members_iff)
qed

lemma cluster_order:
  assumes i: "i < n" "0 \<le> lbls ! i" and j: "j < n" "0 \<le> lbls ! j" and le: "lbls ! i \<le> lbls ! j"
  shows "\<exists>a b. a \<le> b \<and> b < length (groupByCluster [0..<n] lbls) \<and>
           i \<in> set (groupByCluster [0..<n] lbls ! a) \<and>
           j \<in> set (groupByCluster [0..<n] lbls ! b)"
proof -
  let ?ks = "cluster_keys n lbls"
  from cluster_position [OF i] obtain a where
    a: "a < length ?ks" "?ks ! a = lbls ! i" "i \<in> set (groupByCluster [0..<n] lbls ! a)"
    by blast
  from cluster_position [OF j] obtain b where
    b: "b < length ?ks" "?ks ! b = lbls ! j" "j \<in> set (groupByCluster [0..<n] lbls ! b)"
    by blast
  have "a \<le> b"
  proof (rule ccontr)
    assume "\<not> a \<le> b"
    then have ba: "b < a" by simp
    then have "?ks ! b \<le> ?ks ! a"
      using cluster_keys_sorted(1) [of n lbls] a(1) by (simp add: sorted_iff_nth_mono)
    then have "?ks ! b = ?ks ! a" using le a(2) b(2) by simp
    then have "b = a"
      using cluster_keys_sorted(2) [of n lbls] a(1) b(1) by (simp add: nth_eq_iff_index_eq)
    then show False using ba by simp
  qed
  moreover have "length (groupByCluster [0..<n] lbls) = length ?ks"
    by (simp add: groupByCluster_indices)
  ultimately show ?thesis using a b by auto
qed

lemma same_cluster_iff:
  "(\<exists>g \<in> set (groupByCluster [0..<n] lbls). i \<in> set g \<and> j \<in> set g) \<longleftrightarrow>
     i < n \<and> j < n \<and> 0 \<le> lbls ! i \<and> lbls ! i = lbls ! j"
  by (auto simp: groupByCluster_indices members_iff cluster_keys_iff)

lemma labels_border: "dbscan_labels border_points (line_options 4 5) = Some [0, 0, 0, 0, 1, 1, 1, 1]"
  by (simp add: dbscan_eval border_points_def line_options_def)

lemma indices_border:
  "dbscan_indices border_points (line_options 4 5) = Some [ [0, 1, 2, 3], [4, 5, 6, 7] ]"
proof -
  have u: "[0..<length border_points] = [0, 1, 2, 3, 4, 5, 6, 7]"
    by (simp add: border_points_def upt_rec_numeral)
  have "groupByCluster [0, 1, 2, 3, 4, 5, 6, 7 :: nat] [0, 0, 0, 0, 1, 1, 1, 1] =
      [ [0, 1, 2, 3], [4, 5, 6, 7] ]"
    by (simp add: group_eval)
  then show ?thesis by (simp add: dbscan_indices_def labels_border u)
qed

lemma neighbors_border_4:
  "scan_neighbors border_points (line_options 4 5) 4 = [3, 4, 5, 6, 7]"
  by (simp add: scan_neighbors_def buildDistance_def border_points_def line_options_def)

text \<open>
  C7 as stated fails.  On the line \<open>-6, -5, -4, 0, 4, 5, 6, 8\<close> with eps = 4 and
  minPts = 5, position 4 (the point 4) has the five neighbours 3, 4, 5, 6, 7 and is core,
  yet its neighbour 3 (the point 0) is returned in the first cluster and position 4 in
  the second: the cluster expanded first had already taken the point 0.
\<close>

theorem core_absorption_counterexample:
  "minPts (line_options 4 5) \<le> real (length (scan_neighbors border_points (line_options 4 5) 4)) \<and>
   3 \<in> set (scan_neighbors border_points (line_options 4 5) 4) \<and>
   dbscan_indices border_points (line_options 4 5) = Some [ [0, 1, 2, 3], [4, 5, 6, 7] ] \<and>
   dbscan border_points (line_options 4 5) =
     Some (Inr [\<lparr> id_cluster = ''0'', center = \<lparr> lat = - 15 / 4, lng = 0 \<rparr>,
                  points = [- 6, - 5, - 4, 0] \<rparr>,
                \<lparr> id_cluster = ''1'', center = \<lparr> lat = 23 / 4, lng = 0 \<rparr>,
                  points = [4, 5, 6, 8] \<rparr>])"
proof -
  have h: "0 < eps (line_options 4 5)" "1 \<le> minPts (line_options 4 5)"
    by (simp_all add: line_options_def)
  have g: "groupByCluster border_points [0, 0, 0, 0, 1, 1, 1, 1] = [ [- 6, - 5, - 4, 0], [4, 5, 6, 8] ]"
    by (simp add: border_points_def group_eval)
  have "dbscan border_points (line_options 4 5) =
      Some (Inr (mk_clusters (coord (line_options 4 5)) [ [- 6, - 5, - 4, 0], [4, 5, 6, 8] ]))"
    using dbscan_via_labels [OF labels_border h] by (simp add: g)
  then have "dbscan border_points (line_options 4 5) =
     Some (Inr [\<lparr> id_cluster = ''0'', center = \<lparr> lat = - 15 / 4, lng = 0 \<rparr>,
                  points = [- 6, - 5, - 4, 0] \<rparr>,
                \<lparr> id_cluster = ''1'', center = \<lparr> lat = 23 / 4, lng = 0 \<rparr>,
                  points = [4, 5, 6, 8] \<rparr>])"
    by (simp add: mk_clusters_def dbscan_center_def string_of_nat_0 string_of_nat_1
        line_options_def)
  moreover have "minPts (line_options 4 5) \<le>
      real (length (scan_neighbors border_points (line_options 4 5) 4))"
    by (simp add: neighbors_border_4) (simp add: line_options_def)
  ultimately show ?thesis by (simp add: neighbors_border_4 indices_border)
qed

text \<open>
  C7, as the code has it.  If \<open>p\<close> is core, every point within eps of \<open>p\<close> is returned
  in a cluster: in the cluster of \<open>p\<close>, or in one that comes earlier in the returned
  list (a cluster that was expanded before and had assigned the point already).
\<close>

theorem core_neighbours_clustered:
  assumes "0 < eps options" and "1 \<le> minPts options"
    and p: "p < length pts"
    and core: "minPts options \<le> real (length (scan_neighbors pts options p))"
    and nb: "nb \<in> set (scan_neighbors pts options p)"
  shows "\<exists>cs idx a b.
           dbscan pts options = Some (Inr cs) \<and>
           dbscan_indices pts options = Some idx \<and>
           map points cs = map (map (nth pts)) idx \<and>
           a \<le> b \<and> b < length idx \<and> nb \<in> set (idx ! a) \<and> p \<in> set (idx ! b)"
proof -
  from dbscan_labels_facts [of pts options] obtain lbls where
    l: "dbscan_labels pts options = Some lbls"
    and ab: "\<forall>i nb. i < length pts \<longrightarrow> is_core pts options i \<longrightarrow>
        nb \<in> set (scan_neighbors pts options i) \<longrightarrow>
          0 \<le> lbls ! i \<and> 0 \<le> lbls ! nb \<and> lbls ! nb \<le> lbls ! i"
    by blast
  let ?idx = "groupByCluster [0..<length pts] lbls"
  let ?cs = "mk_clusters (coord options) (groupByCluster pts lbls)"
  have c: "is_core pts options p" using core by (simp add: is_core_def)
  from ab p c nb have o: "0 \<le> lbls ! p" "0 \<le> lbls ! nb" "lbls ! nb \<le> lbls ! p"
    by blast+
  have nbn: "nb < length pts" using nb scan_neighbors_bound [of pts options p] by auto
  from cluster_order [OF nbn o(2) p o(1) o(3)] obtain a b where
    "a \<le> b" "b < length ?idx" "nb \<in> set (?idx ! a)" "p \<in> set (?idx ! b)"
    by blast
  moreover have "dbscan pts options = Some (Inr ?cs)"
    using l assms(1,2) by (rule dbscan_via_labels)
  moreover have "dbscan_indices pts options = Some ?idx"
    by (simp add: dbscan_indices_def l)
  moreover have "map points ?cs = map (map (nth pts)) ?idx"
    by (simp add: points_mk_clusters groupByCluster_via_indices [of pts])
  ultimately show ?thesis by blast
qed

theorem core_neighbours_clustered_witness:
  "0 < eps (line_options 4 5) \<and> 1 \<le> minPts (line_options 4 5) \<and>
   4 < length border_points \<and>
   minPts (line_options 4 5) \<le> real (length (scan_neighbors border_points (line_options 4 5) 4)) \<and>
   3 \<in> set (scan_neighbors border_points (line_options 4 5) 4) \<and>
   (\<exists>idx a b. dbscan_indices border_points (line_options 4 5) = Some idx \<and>
       a \<le> b \<and> b < length idx \<and> 3 \<in> set (idx ! a) \<and> 4 \<in> set (idx ! b))"
proof -
  have h: "0 < eps (line_options 4 5)" "1 \<le> minPts (line_options 4 5)"
    "4 < length border_points"
    "minPts (line_options 4 5) \<le> real (length (scan_neighbors border_points (line_options 4 5) 4))"
    "3 \<in> set (scan_neighbors border_points (line_options 4 5) 4)"
    by (simp_all add: neighbors_border_4) (simp_all add: line_options_def border_points_def)
  from core_neighbours_clustered [OF h] show ?thesis using h by blast
qed

section \<open>DBSCAN: a larger radius\<close>

lemma length_filter_mono:
  "(\<And>x. x \<in> set xs \<Longrightarrow> P x \<Longrightarrow> Q x) \<Longrightarrow> length (filter P xs) \<le> length (filter Q xs)"
  by (induction xs) auto

lemma buildDistance_eps [simp]: "buildDistance (options\<lparr> eps := e \<rparr>) = buildDistance options"
  by (cases "distance options") (simp_all add: buildDistance_def)

lemma scan_neighbors_mono:
  assumes "e1 \<le> e2"
  shows "set (scan_neighbors pts (options\<lparr> eps := e1 \<rparr>) i) \<subseteq>
         set (scan_neighbors pts (options\<lparr> eps := e2 \<rparr>) i)"
    and "length (scan_neighbors pts (options\<lparr> eps := e1 \<rparr>) i) \<le>
         length (scan_neighbors pts (options\<lparr> eps := e2 \<rparr>) i)"
proof -
  show "set (scan_neighbors pts (options\<lparr> eps := e1 \<rparr>) i) \<subseteq>
        set (scan_neighbors pts (options\<lparr> eps := e2 \<rparr>) i)"
    using assms by (auto simp: scan_neighbors_def split: if_splits)
  show "length (scan_neighbors pts (options\<lparr> eps := e1 \<rparr>) i) \<le>
        length (scan_neighbors pts (options\<lparr> eps := e2 \<rparr>) i)"
    unfolding scan_neighbors_def using assms
    by (intro length_filter_mono) (auto split: if_splits)
qed

lemma is_core_mono:
  assumes "e1 \<le> e2" and "is_core pts (options\<lparr> eps := e1 \<rparr>) i"
  shows "is_core pts (options\<lparr> eps := e2 \<rparr>) i"
  using assms(2) scan_neighbors_mono(2) [OF assms(1), of pts options i]
  by (simp add: is_core_def)

lemma scan_neighbors_sym:
  assumes sym: "\<forall>a b. buildDistance options a b = buildDistance options b a"
    and "a < length pts" and "b \<in> set (scan_neighbors pts options a)"
  shows "a \<in> set (scan_neighbors pts options b)"
  using assms(2,3) sym by (auto simp: scan_neighbors_def split: if_splits)

lemma core_neighbours_same_label:
  assumes sym: "\<forall>a b. buildDistance options a b = buildDistance options b a"
    and ab: "\<forall>i nb. i < length pts \<longrightarrow> is_core pts options i \<longrightarrow>
        nb \<in> set (scan_neighbors pts options i) \<longrightarrow>
          0 \<le> lbls ! i \<and> 0 \<le> lbls ! nb \<and> lbls ! nb \<le> (lbls ! i :: int)"
    and a: "a < length pts" "is_core pts options a"
    and b: "b \<in> set (scan_neighbors pts options a)" "is_core pts options b"
  shows "lbls ! a = lbls ! b"
proof -
  have bn: "b < length pts" using b(1) scan_neighbors_bound [of pts options a] by auto
  have "a \<in> set (scan_neighbors pts options b)"
    using sym a(1) b(1) by (rule scan_neighbors_sym)
  with ab bn b(2) have "lbls ! a \<le> lbls ! b" by blast
  moreover from ab a b(1) have "lbls ! b \<le> lbls ! a" by blast
  ultimately show ?thesis by simp
qed

lemma reach_same_label:
  assumes le: "e1 \<le> e2"
    and sym: "\<forall>a b. buildDistance options a b = buildDistance options b a"
    and ab: "\<forall>i nb. i < length pts \<longrightarrow> is_core pts (options\<lparr> eps := e2 \<rparr>) i \<longrightarrow>
        nb \<in> set (scan_neighbors pts (options\<lparr> eps := e2 \<rparr>) i) \<longrightarrow>
          0 \<le> lbls ! i \<and> 0 \<le> lbls ! nb \<and> lbls ! nb \<le> (lbls ! i :: int)"
    and r: "reach pts (options\<lparr> eps := e1 \<rparr>) s x"
    and c: "is_core pts (options\<lparr> eps := e1 \<rparr>) x"
  shows "lbls ! s = lbls ! x"
  using r [unfolded reach_def] c
proof (induction rule: rtranclp_induct)
  case base
  then show ?case by simp
next
  case (step y z)
  from step.hyps(2) have y: "y < length pts" "is_core pts (options\<lparr> eps := e1 \<rparr>) y"
    "z \<in> set (scan_neighbors pts (options\<lparr> eps := e1 \<rparr>) y)"
    by (simp_all add: link_def)
  have sy: "lbls ! s = lbls ! y" using step.IH y(2) by simp
  have z2: "z \<in> set (scan_neighbors pts (options\<lparr> eps := e2 \<rparr>) y)"
    using y(3) scan_neighbors_mono(1) [OF le, of pts options y] by auto
  have sym2: "\<forall>a b. buildDistance (options\<lparr> eps := e2 \<rparr>) a b =
      buildDistance (options\<lparr> eps := e2 \<rparr>) b a"
    using sym by simp
  have "lbls ! y = lbls ! z"
    using sym2 ab y(1) is_core_mono [OF le y(2)] z2 is_core_mono [OF le step.prems]
    by (rule core_neighbours_same_label)
  then show ?case using sy by simp
qed


lemma dbscan_indices_returned:
  assumes "0 < eps options" and "1 \<le> minPts options"
    and "dbscan_indices pts options = Some idx"
  shows "\<exists>cs. dbscan pts options = Some (Inr cs) \<and> map points cs = map (map (nth pts)) idx"
proof -
  from assms(3) obtain lbls where l: "dbscan_labels pts options = Some lbls"
    and idx: "idx = groupByCluster [0..<length pts] lbls"
    by (auto simp: dbscan_indices_def)
  have "dbscan pts options = Some (Inr (mk_clusters (coord options) (groupByCluster pts lbls)))"
    using l assms(1,2) by (rule dbscan_via_labels)
  moreover have "map points (mk_clusters (coord options) (groupByCluster pts lbls)) =
      map (map (nth pts)) idx"
    by (simp add: idx points_mk_clusters groupByCluster_via_indices [of pts])
  ultimately show ?thesis by blast
qed

lemma labels_widening_3:
  "dbscan_labels widening_points (line_options 3 5) = Some [0, 0, 0, 0, 1, 1, 1, 1, 1]"
  by (simp add: dbscan_eval widening_points_def line_options_def)

lemma labels_widening_4:
  "dbscan_labels widening_points (line_options 4 5) = Some [0, 0, 0, 0, 1, 1, 1, 1, 0]"
  by (simp add: dbscan_eval widening_points_def line_options_def)

lemma line_options_valid: "0 < e \<Longrightarrow> 1 \<le> m \<Longrightarrow> 0 < eps (line_options e m) \<and> 1 \<le> minPts (line_options e m)"
  by (simp add: line_options_def)

text \<open>
  C8 as stated fails.  On the input \<open>-4, -5, -6, -7, 3, 5, 6, 7, 0\<close> with minPts = 5,
  the points 3 and 0 are returned in the same cluster at eps = 3 and in different
  clusters at eps = 4: at the larger radius the point 0 is also within reach of the
  group around -4, which is expanded first and takes it.
\<close>

theorem eps_monotone_counterexample:
  "dbscan widening_points (line_options 3 5) =
     Some (Inr [\<lparr> id_cluster = ''0'', center = \<lparr> lat = - 11 / 2, lng = 0 \<rparr>,
                  points = [- 4, - 5, - 6, - 7] \<rparr>,
                \<lparr> id_cluster = ''1'', center = \<lparr> lat = 21 / 5, lng = 0 \<rparr>,
                  points = [3, 5, 6, 7, 0] \<rparr>]) \<and>
   dbscan widening_points (line_options 4 5) =
     Some (Inr [\<lparr> id_cluster = ''0'', center = \<lparr> lat = - 22 / 5, lng = 0 \<rparr>,
                  points = [- 4, - 5, - 6, - 7, 0] \<rparr>,
                \<lparr> id_cluster = ''1'', center = \<lparr> lat = 21 / 4, lng = 0 \<rparr>,
                  points = [3, 5, 6, 7] \<rparr>])"
proof -
  have g3: "groupByCluster widening_points [0, 0, 0, 0, 1, 1, 1, 1, 1] =
      [ [- 4, - 5, - 6, - 7], [3, 5, 6, 7, 0] ]"
    by (simp add: widening_points_def group_eval)
  have g4: "groupByCluster widening_points [0, 0, 0, 0, 1, 1, 1, 1, 0] =
      [ [- 4, - 5, - 6, - 7, 0], [3, 5, 6, 7] ]"
    by (simp add: widening_points_def group_eval)
  have h3: "0 < eps (line_options 3 5)" "1 \<le> minPts (line_options 3 5)"
    and h4: "0 < eps (line_options 4 5)" "1 \<le> minPts (line_options 4 5)"
    by (simp_all add: line_options_def)
  have "dbscan widening_points (line_options 3 5) =
      Some (Inr (mk_clusters (coord (line_options 3 5)) [ [- 4, - 5, - 6, - 7], [3, 5, 6, 7, 0] ]))"
    using dbscan_via_labels [OF labels_widening_3 h3] by (simp add: g3)
  moreover have "dbscan widening_points (line_options 4 5) =
      Some (Inr (mk_clusters (coord (line_options 4 5)) [ [- 4, - 5, - 6, - 7, 0], [3, 5, 6, 7] ]))"
    using dbscan_via_labels [OF labels_widening_4 h4] by (simp add: g4)
  ultimately show ?thesis
    by (simp add: mk_clusters_def dbscan_center_def string_of_nat_0 string_of_nat_1
        line_options_def)
qed

text \<open>
  C8, as the code has it.  For a symmetric distance (the default Euclidean one, or a
  symmetric custom function) and radii \<open>e1 \<le> e2\<close>: two core points that \<open>dbscan\<close>
  returns in the same cluster at \<open>e1\<close> are returned in the same cluster at \<open>e2\<close>, all
  other options being equal.
\<close>

theorem wider_eps_keeps_core_points_together:
  assumes e: "0 < e1" "e1 \<le> e2" and m: "1 \<le> minPts options"
    and sym: "\<forall>a b. buildDistance options a b = buildDistance options b a"
    and idx1: "dbscan_indices pts (options\<lparr> eps := e1 \<rparr>) = Some idx1"
    and g: "g \<in> set idx1" "p \<in> set g" "q \<in> set g"
    and cp: "minPts options \<le> real (length (scan_neighbors pts (options\<lparr> eps := e1 \<rparr>) p))"
    and cq: "minPts options \<le> real (length (scan_neighbors pts (options\<lparr> eps := e1 \<rparr>) q))"
  shows "\<exists>cs1 cs2 idx2 g2.
           dbscan pts (options\<lparr> eps := e1 \<rparr>) = Some (Inr cs1) \<and>
           map points cs1 = map (map (nth pts)) idx1 \<and>
           dbscan pts (options\<lparr> eps := e2 \<rparr>) = Some (Inr cs2) \<and>
           dbscan_indices pts (options\<lparr> eps := e2 \<rparr>) = Some idx2 \<and>
           map points cs2 = map (map (nth pts)) idx2 \<and>
           g2 \<in> set idx2 \<and> p \<in> set g2 \<and> q \<in> set g2"
proof -
  let ?o1 = "options\<lparr> eps := e1 \<rparr>" and ?o2 = "options\<lparr> eps := e2 \<rparr>"
  let ?n = "length pts"
  from dbscan_labels_facts [of pts ?o1] obtain lbls1 where
    l1: "dbscan_labels pts ?o1 = Some lbls1"
    and ro: "\<forall>c. \<exists>s. \<forall>i < ?n. lbls1 ! i = int c \<longrightarrow> reach pts ?o1 s i"
    by blast
  from dbscan_labels_facts [of pts ?o2] obtain lbls2 where
    l2: "dbscan_labels pts ?o2 = Some lbls2"
    and ab: "\<forall>i nb. i < ?n \<longrightarrow> is_core pts ?o2 i \<longrightarrow>
        nb \<in> set (scan_neighbors pts ?o2 i) \<longrightarrow>
          0 \<le> lbls2 ! i \<and> 0 \<le> lbls2 ! nb \<and> lbls2 ! nb \<le> lbls2 ! i"
    by blast
  have i1: "idx1 = groupByCluster [0..<?n] lbls1"
    using idx1 by (simp add: dbscan_indices_def l1)
  let ?idx2 = "groupByCluster [0..<?n] lbls2"
  have i2: "dbscan_indices pts ?o2 = Some ?idx2"
    by (simp add: dbscan_indices_def l2)
  from g have "\<exists>g \<in> set (groupByCluster [0..<?n] lbls1). p \<in> set g \<and> q \<in> set g"
    unfolding i1 by blast
  then have pq: "p < ?n" "q < ?n" "0 \<le> lbls1 ! p" "lbls1 ! p = lbls1 ! q"
    by (simp_all add: same_cluster_iff)
  from ro obtain s where s: "\<forall>i < ?n. lbls1 ! i = int (nat (lbls1 ! p)) \<longrightarrow> reach pts ?o1 s i"
    by blast
  have rp: "reach pts ?o1 s p" and rq: "reach pts ?o1 s q"
    using s pq by simp_all
  have c1: "is_core pts ?o1 p" "is_core pts ?o1 q"
    using cp cq by (simp_all add: is_core_def)
  have "lbls2 ! s = lbls2 ! p"
    using e(2) sym ab rp c1(1) by (rule reach_same_label)
  moreover have "lbls2 ! s = lbls2 ! q"
    using e(2) sym ab rq c1(2) by (rule reach_same_label)
  ultimately have eq: "lbls2 ! p = lbls2 ! q" by simp
  have "p \<in> set (scan_neighbors pts ?o2 p)"
    using e pq(1) by (intro scan_neighbors_self) simp_all
  with ab pq(1) is_core_mono [OF e(2) c1(1)] have "0 \<le> lbls2 ! p" by blast
  with eq pq(1,2) have "\<exists>g2 \<in> set ?idx2. p \<in> set g2 \<and> q \<in> set g2"
    by (simp add: same_cluster_iff)
  moreover from dbscan_indices_returned [OF _ _ idx1] e(1) m
  have "\<exists>cs1. dbscan pts ?o1 = Some (Inr cs1) \<and> map points cs1 = map (map (nth pts)) idx1"
    by simp
  moreover from dbscan_indices_returned [OF _ _ i2] e m
  have "\<exists>cs2. dbscan pts ?o2 = Some (Inr cs2) \<and> map points cs2 = map (map (nth pts)) ?idx2"
    by simp
  ultimately show ?thesis using i2 by blast
qed

lemma indices_four_wide:
  "dbscan_indices [0, 1, 2, 3] ((line_options 4 4)\<lparr> eps := 4 \<rparr>) = Some [ [0, 1, 2, 3] ]"
proof -
  have l: "dbscan_labels [0, 1, 2, 3] ((line_options 4 4)\<lparr> eps := 4 \<rparr>) = Some [0, 0, 0, 0]"
    by (simp add: dbscan_eval line_options_def)
  have g: "groupByCluster [0, 1, 2, 3 :: nat] [0, 0, 0, 0] = [ [0, 1, 2, 3] ]"
    by (simp add: group_eval)
  have u: "[0..<length [0, 1, 2, 3 :: int] ] = [0, 1, 2, 3]"
    by (simp add: upt_rec_numeral)
  show ?thesis by (simp only: dbscan_indices_def l u g option.map)
qed

theorem wider_eps_keeps_core_points_together_witness:
  "(0::real) < 4 \<and> (4::real) \<le> 5 \<and> 1 \<le> minPts (line_options 4 4) \<and>
   dbscan_indices [0, 1, 2, 3] ((line_options 4 4)\<lparr> eps := 4 \<rparr>) = Some [ [0, 1, 2, 3] ] \<and>
   minPts (line_options 4 4) \<le>
     real (length (scan_neighbors [0, 1, 2, 3] ((line_options 4 4)\<lparr> eps := 4 \<rparr>) 0)) \<and>
   minPts (line_options 4 4) \<le>
     real (length (scan_neighbors [0, 1, 2, 3] ((line_options 4 4)\<lparr> eps := 4 \<rparr>) 1)) \<and>
   (\<exists>idx2 g2. dbscan_indices [0, 1, 2, 3] ((line_options 4 4)\<lparr> eps := 5 \<rparr>) = Some idx2 \<and>
       g2 \<in> set idx2 \<and> 0 \<in> set g2 \<and> 1 \<in> set g2)"
proof -
  have e: "(0::real) < 4" "(4::real) \<le> 5" by simp_all
  have m: "1 \<le> minPts (line_options 4 4)" by (simp add: line_options_def)
  have sym: "\<forall>a b. buildDistance (line_options 4 4) a b = buildDistance (line_options 4 4) b a"
    by (simp add: buildDistance_def line_options_def abs_minus_commute)
  have g: "[0, 1, 2, 3] \<in> set [ [0, 1, 2, 3 :: nat] ]" "0 \<in> set [0, 1, 2, 3 :: nat]"
    "1 \<in> set [0, 1, 2, 3 :: nat]"
    by simp_all
  have c: "minPts (line_options 4 4) \<le>
      real (length (scan_neighbors [0, 1, 2, 3] ((line_options 4 4)\<lparr> eps := 4 \<rparr>) 0))"
    "minPts (line_options 4 4) \<le>
      real (length (scan_neighbors [0, 1, 2, 3] ((line_options 4 4)\<lparr> eps := 4 \<rparr>) 1))"
    by (simp_all add: scan_neighbors_def buildDistance_def line_options_def)
  from wider_eps_keeps_core_points_together [OF e m sym indices_four_wide g c]
  show ?thesis using e m c indices_four_wide by blast
qed

section \<open>The layer controller: one shared marker list\<close>

lemma fold_marker_remove:
  "next_ref (fold marker_remove rs w) = next_ref w \<and>
   markers (fold marker_remove rs w) = markers w \<and>
   heap (fold marker_remove rs w) r =
     (if r \<in> set rs then map_option (\<lambda>mk. mk\<lparr> shown_on := None \<rparr>) (heap w r) else heap w r)"
proof (induction rs arbitrary: w)
  case Nil
  then show ?case by simp
next
  case (Cons r0 rs)
  have "map_option (\<lambda>mk. mk\<lparr> shown_on := None \<rparr>) (map_option (\<lambda>mk. mk\<lparr> shown_on := None \<rparr>) x) =
        map_option (\<lambda>mk. mk\<lparr> shown_on := None \<rparr>) x" for x :: "Marker option"
    by (cases x) simp_all
  then show ?case using Cons [of "marker_remove r0 w"] by (simp add: marker_remove_def)
qed

lemma clearMarkers_fields:
  "markers (clearMarkers w) = []"
  "next_ref (clearMarkers w) = next_ref w"
  "heap (clearMarkers w) r =
     (if r \<in> set (markers w) then map_option (\<lambda>mk. mk\<lparr> shown_on := None \<rparr>) (heap w r)
      else heap w r)"
  using fold_marker_remove [of "markers w" w r] by (simp_all add: clearMarkers_def)

lemma shown_clearMarkers: "shown (clearMarkers w) k r \<longleftrightarrow> shown w k r \<and> r \<notin> set (markers w)"
  by (cases "heap w r") (auto simp: shown_def clearMarkers_fields)

lemma rendered_clearMarkers:
  "rendered (clearMarkers w) k = filter (\<lambda>r. r \<notin> set (markers w)) (rendered w k)"
proof -
  have "shown (clearMarkers w) k = (\<lambda>r. shown w k r \<and> r \<notin> set (markers w))"
    by (rule ext) (rule shown_clearMarkers)
  then show ?thesis by (simp add: rendered_def clearMarkers_fields conj_commute)
qed

lemma add_markers_effect:
  assumes "add_markers firstElement k options groups w = (e, w')"
  shows "next_ref w \<le> next_ref w' \<and>
         (\<forall>r < next_ref w. heap w' r = heap w r) \<and>
         (\<forall>r. next_ref w \<le> r \<and> r < next_ref w' \<longrightarrow> shown w' k r) \<and>
         markers w' = markers w @ [next_ref w..<next_ref w']"
  using assms
proof (induction groups arbitrary: w)
  case Nil
  then show ?case by auto
next
  case (Cons grp groups)
  let ?html = "case clusterHTML options of None \<Rightarrow> None | Some f \<Rightarrow> f (points grp)"
  let ?el = "case ?html of
                 None \<Rightarrow> Inr None
               | Some h \<Rightarrow>
                   if h = [] then Inr None
                   else (case htmlToElement firstElement h of
                           Inl e \<Rightarrow> Inl e
                         | Inr node \<Rightarrow> Inr (Some node))"
  show ?case
  proof (cases ?el)
    case (Inl err)
    then have "w' = w" using Cons.prems by (simp add: Let_def)
    then show ?thesis by auto
  next
    case (Inr el)
    let ?w1 = "w\<lparr> markers := markers w @ [next_ref w],
                 heap := (heap w)(next_ref w \<mapsto>
                   \<lparr> element = el, lngLat = Some (center grp), shown_on = Some k \<rparr>),
                 next_ref := next_ref w + 1 \<rparr>"
    have "add_markers firstElement k options groups ?w1 = (e, w')"
      using Cons.prems Inr by (simp add: Let_def)
    from Cons.IH [OF this]
    have ih: "next_ref ?w1 \<le> next_ref w'"
      "\<forall>r < next_ref ?w1. heap w' r = heap ?w1 r"
      "\<forall>r. next_ref ?w1 \<le> r \<and> r < next_ref w' \<longrightarrow> shown w' k r"
      "markers w' = markers ?w1 @ [next_ref ?w1..<next_ref w']"
      by blast+
    have 1: "next_ref w \<le> next_ref w'" using ih(1) by simp
    have 2: "\<forall>r < next_ref w. heap w' r = heap w r" using ih(2) by simp
    have first: "shown w' k (next_ref w)"
      using ih(2) by (simp add: shown_def)
    have "shown w' k r" if "next_ref w \<le> r" "r < next_ref w'" for r
    proof (cases "r = next_ref w")
      case True
      then show ?thesis using first by simp
    next
      case False
      then have "next_ref ?w1 \<le> r" using that by simp
      then show ?thesis using ih(3) that by blast
    qed
    then have 3: "\<forall>r. next_ref w \<le> r \<and> r < next_ref w' \<longrightarrow> shown w' k r"
      by blast
    have "[next_ref w..<next_ref w'] = next_ref w # [next_ref w + 1..<next_ref w']"
      using ih(1) by (simp add: upt_conv_Cons)
    then have 4: "markers w' = markers w @ [next_ref w..<next_ref w']"
      using ih(4) by simp
    show ?thesis using 1 2 3 4 by blast
  qed
qed


lemma recompute_effect:
  assumes wf: "\<forall>r \<in> set (markers w). r < next_ref w"
    and r: "recompute firstElement (Some m) data options w = (e, w')"
  shows "next_ref w \<le> next_ref w' \<and>
         (\<forall>r < next_ref w. heap w' r = heap (clearMarkers w) r) \<and>
         (\<forall>r. next_ref w \<le> r \<and> r < next_ref w' \<longrightarrow> shown w' (map_id m) r) \<and>
         markers w' = [next_ref w..<next_ref w']"
proof (cases "getBounds m")
  case None
  then have "w' = clearMarkers w" using r by (simp add: recompute_def Let_def)
  then show ?thesis by (auto simp: clearMarkers_fields)
next
  case (Some contains)
  let ?groups = "grid (filter contains data)
      \<lparr> cellSize = 150, vector = (\<lambda>p. case project m p of (x, y) \<Rightarrow> [x, y]) \<rparr>"
  have "add_markers firstElement (map_id m) options ?groups (clearMarkers w) = (e, w')"
    using r Some by (simp add: recompute_def Let_def)
  from add_markers_effect [OF this] show ?thesis by (simp add: clearMarkers_fields)
qed

lemma rendered_split:
  assumes "n \<le> next_ref w"
  shows "rendered w k = filter (shown w k) [0..<n] @ filter (shown w k) [n..<next_ref w]"
proof -
  have "[0..<next_ref w] = [0..<n] @ [n..<next_ref w]"
    using assms by (metis le_add_diff_inverse upt_add_eq_append zero_le)
  then show ?thesis by (simp add: rendered_def)
qed

lemma world_one_layer_eval:
  "addClusteredLayer any_dom (whole_map 10) one_point no_options 1000 empty_world =
     (None,
      \<lparr> ctl_data = one_point, ctl_options = DEFAULT_OPTIONS, lastTime = 1000 \<rparr>,
      \<lparr> markers = [0],
        heap = (\<lambda>_. None)(0 \<mapsto> \<lparr> element = None, lngLat = Some \<lparr> lat = 0, lng = 0 \<rparr>, shown_on = Some 10 \<rparr>),
        next_ref = 1 \<rparr>)"
proof -
  have key: "groupID \<lparr> cellSize = 150, vector = (\<lambda>p. case project (whole_map 10) p of (x, y) \<Rightarrow> [x, y]) \<rparr>
      \<lparr> lat = 0, lng = 0 \<rparr> = ''0;0''"
    by (simp add: groupID_def component_def cell_index_def string_of_int_def string_of_nat_0
        whole_map_def)
  have g: "grid one_point \<lparr> cellSize = 150, vector = (\<lambda>p. case project (whole_map 10) p of (x, y) \<Rightarrow> [x, y]) \<rparr> =
      [\<lparr> id_cluster = ''0;0'', center = \<lparr> lat = 0, lng = 0 \<rparr>, points = one_point \<rparr>]"
    by (simp add: grid_def fill_buckets_def bucket_push_def key grid_center_def one_point_def)
  have c: "clearMarkers empty_world = empty_world"
    by (simp add: clearMarkers_def empty_world_def)
  have b: "getBounds (whole_map 10) = Some (\<lambda>p. True)" "map_id (whole_map 10) = 10"
    by (simp_all add: whole_map_def)
  have m: "merge_options no_options = (DEFAULT_OPTIONS :: LatLng LayerOptions)"
    by (simp add: merge_options_def no_options_def DEFAULT_OPTIONS_def)
  have "recompute any_dom (Some (whole_map 10)) one_point DEFAULT_OPTIONS empty_world =
     (None, \<lparr> markers = [0],
        heap = (\<lambda>_. None)(0 \<mapsto> \<lparr> element = None, lngLat = Some \<lparr> lat = 0, lng = 0 \<rparr>, shown_on = Some 10 \<rparr>),
        next_ref = 1 \<rparr>)"
    unfolding recompute_def
    by (simp add: c b g Let_def)
      (simp add: DEFAULT_OPTIONS_def DEFAULT_CLUSTER_HTML_def one_point_def empty_world_def)
  then show ?thesis
    by (simp add: addClusteredLayer_def compute_def m)
      (simp add: DEFAULT_OPTIONS_def DEFAULT_THROTTLE_def)
qed


lemma world_one_layer_eq:
  "world_one_layer =
     \<lparr> markers = [0],
       heap = (\<lambda>_. None)(0 \<mapsto> \<lparr> element = None, lngLat = Some \<lparr> lat = 0, lng = 0 \<rparr>, shown_on = Some 10 \<rparr>),
       next_ref = 1 \<rparr>"
  and controller_one_eq:
  "controller_one = \<lparr> ctl_data = one_point, ctl_options = DEFAULT_OPTIONS, lastTime = 1000 \<rparr>"
  by (simp_all add: world_one_layer_def controller_one_def world_one_layer_eval)

lemma rendered_one_layer: "rendered world_one_layer 10 = [0]"
  by (simp add: world_one_layer_eq rendered_def shown_def)

lemma recompute_two_layers:
  "recompute any_dom (Some (whole_map 20)) one_point DEFAULT_OPTIONS world_one_layer =
     (None,
      \<lparr> markers = [1],
        heap = (\<lambda>_. None)
          (0 \<mapsto> \<lparr> element = None, lngLat = Some \<lparr> lat = 0, lng = 0 \<rparr>, shown_on = None \<rparr>,
           1 \<mapsto> \<lparr> element = None, lngLat = Some \<lparr> lat = 0, lng = 0 \<rparr>, shown_on = Some 20 \<rparr>),
        next_ref = 2 \<rparr>)"
proof -
  have key: "groupID \<lparr> cellSize = 150, vector = (\<lambda>p. case project (whole_map 20) p of (x, y) \<Rightarrow> [x, y]) \<rparr>
      \<lparr> lat = 0, lng = 0 \<rparr> = ''0;0''"
    by (simp add: groupID_def component_def cell_index_def string_of_int_def string_of_nat_0
        whole_map_def)
  have g: "grid one_point \<lparr> cellSize = 150, vector = (\<lambda>p. case project (whole_map 20) p of (x, y) \<Rightarrow> [x, y]) \<rparr> =
      [\<lparr> id_cluster = ''0;0'', center = \<lparr> lat = 0, lng = 0 \<rparr>, points = one_point \<rparr>]"
    by (simp add: grid_def fill_buckets_def bucket_push_def key grid_center_def one_point_def)
  have c: "clearMarkers world_one_layer =
      \<lparr> markers = [],
        heap = (\<lambda>_. None)(0 \<mapsto> \<lparr> element = None, lngLat = Some \<lparr> lat = 0, lng = 0 \<rparr>, shown_on = None \<rparr>),
        next_ref = 1 \<rparr>"
    by (simp add: clearMarkers_def world_one_layer_eq marker_remove_def)
  have b: "getBounds (whole_map 20) = Some (\<lambda>p. True)" "map_id (whole_map 20) = 20"
    by (simp_all add: whole_map_def)
  show ?thesis
    unfolding recompute_def
    by (simp add: c b g Let_def)
      (simp add: DEFAULT_OPTIONS_def DEFAULT_CLUSTER_HTML_def one_point_def)
qed

lemma world_two_layers_eq:
  "world_two_layers =
     \<lparr> markers = [1],
        heap = (\<lambda>_. None)
          (0 \<mapsto> \<lparr> element = None, lngLat = Some \<lparr> lat = 0, lng = 0 \<rparr>, shown_on = None \<rparr>,
           1 \<mapsto> \<lparr> element = None, lngLat = Some \<lparr> lat = 0, lng = 0 \<rparr>, shown_on = Some 20 \<rparr>),
        next_ref = 2 \<rparr>"
proof -
  have m: "merge_options no_options = (DEFAULT_OPTIONS :: LatLng LayerOptions)"
    by (simp add: merge_options_def no_options_def DEFAULT_OPTIONS_def)
  show ?thesis
    by (simp add: world_two_layers_def addClusteredLayer_def compute_def m recompute_two_layers)
      (simp add: DEFAULT_OPTIONS_def DEFAULT_THROTTLE_def)
qed

lemma world_after_unloaded_zoom_eq:
  "world_after_unloaded_zoom = clearMarkers world_one_layer"
  by (simp add: world_after_unloaded_zoom_def compute_def controller_one_eq recompute_def
      unloaded_map_def Let_def)
    (simp add: DEFAULT_OPTIONS_def DEFAULT_THROTTLE_def)

text \<open>
  C3 as stated fails.  A first layer on map 10 renders marker 0; a later zoom event on
  that map while \<open>getBounds\<close> returns nothing leaves no marker rendered.
\<close>

theorem no_bounds_counterexample:
  "getBounds (unloaded_map 10) = None \<and>
   rendered world_one_layer 10 = [0] \<and>
   rendered world_after_unloaded_zoom 10 = []"
  by (simp add: rendered_one_layer world_after_unloaded_zoom_eq rendered_clearMarkers)
    (simp add: unloaded_map_def world_one_layer_eq)

text \<open>
  C3, as the code has it.  \<open>clearMarkers\<close> runs before the bounds are read: an
  invocation that finds no bounds removes every marker recorded in \<open>markers\<close> from its
  map, empties the list and creates no marker.  What stays rendered on any map are the
  markers rendered before that were not in the list.
\<close>

theorem recompute_without_bounds:
  assumes "getBounds m = None"
  shows "recompute firstElement (Some m) data options w = (None, clearMarkers w) \<and>
         markers (clearMarkers w) = [] \<and>
         (\<forall>k. rendered (clearMarkers w) k = filter (\<lambda>r. r \<notin> set (markers w)) (rendered w k))"
  using assms by (simp add: recompute_def Let_def clearMarkers_fields rendered_clearMarkers)

theorem recompute_without_bounds_witness:
  "getBounds (unloaded_map 10) = None \<and>
   recompute any_dom (Some (unloaded_map 10)) one_point DEFAULT_OPTIONS world_one_layer =
     (None, clearMarkers world_one_layer) \<and>
   rendered (clearMarkers world_one_layer) 10 = []"
proof -
  have h: "getBounds (unloaded_map 10) = None" by (simp add: unloaded_map_def)
  from recompute_without_bounds [OF h, of any_dom one_point DEFAULT_OPTIONS world_one_layer]
  show ?thesis using h by (simp add: rendered_one_layer) (simp add: world_one_layer_eq)
qed

text \<open>
  C4 as stated fails.  The first layer renders marker 0 on map 10; creating a second
  layer on map 20 removes that marker from map 10.
\<close>

theorem shared_markers_counterexample:
  "rendered world_one_layer 10 = [0] \<and>
   rendered world_two_layers 10 = [] \<and>
   rendered world_two_layers 20 = [1]"
  by (simp add: rendered_one_layer)
    (simp add: world_two_layers_eq rendered_def shown_def numeral_2_eq_2)

text \<open>
  C4, as the code has it.  The marker list is one variable of the module, shared by all
  controllers.  An invocation of any controller, on a map \<open>m\<close>, removes from their maps
  all markers in the list, whichever controller made them; on every other map the
  markers not in the list stay rendered, and no marker object that existed before is
  changed otherwise.  Afterwards the list holds exactly the markers made by this
  invocation (the references \<open>next_ref w\<close> up to \<open>next_ref w'\<close>, which did not exist
  before in a world whose allocator is fresh), all new and all rendered on \<open>m\<close>.
\<close>

theorem recompute_shared_marker_list:
  assumes wf: "\<forall>r \<in> set (markers w). r < next_ref w"
    and r: "recompute firstElement (Some m) data options w = (e, w')"
  shows "(\<forall>r \<in> set (markers w). \<forall>k. r \<notin> set (rendered w' k)) \<and>
         (\<forall>k. k \<noteq> map_id m \<longrightarrow>
            rendered w' k = filter (\<lambda>r. r \<notin> set (markers w)) (rendered w k)) \<and>
         set (markers w') \<subseteq> set (rendered w' (map_id m)) \<and>
         set (markers w') \<inter> set (markers w) = {} \<and>
         (\<forall>r \<in> set (markers w'). r < next_ref w') \<and>
         next_ref w \<le> next_ref w' \<and>
         markers w' = [next_ref w..<next_ref w'] \<and>
         (\<forall>r. next_ref w \<le> r \<and> r < next_ref w' \<longrightarrow> shown w' (map_id m) r) \<and>
         (\<forall>r < next_ref w. heap w' r = heap (clearMarkers w) r) \<and>
         ((\<forall>r. next_ref w \<le> r \<longrightarrow> heap w r = None) \<longrightarrow>
            (\<forall>r \<in> set (markers w'). heap w r = None \<and> heap w' r \<noteq> None))"
proof -
  from recompute_effect [OF wf r]
  have n: "next_ref w \<le> next_ref w'"
    and old: "\<forall>r < next_ref w. heap w' r = heap (clearMarkers w) r"
    and new: "\<forall>r. next_ref w \<le> r \<and> r < next_ref w' \<longrightarrow> shown w' (map_id m) r"
    and ms: "markers w' = [next_ref w..<next_ref w']"
    by blast+
  have sh: "shown w' k r \<longleftrightarrow> shown w k r \<and> r \<notin> set (markers w)" if "r < next_ref w" for r k
  proof -
    have "shown w' k r \<longleftrightarrow> shown (clearMarkers w) k r"
      using old that by (simp add: shown_def)
    then show ?thesis by (simp add: shown_clearMarkers)
  qed
  have 1: "r \<notin> set (rendered w' k)" if "r \<in> set (markers w)" for r k
  proof -
    have "r < next_ref w" using wf that by blast
    then have "\<not> shown w' k r" using sh that by simp
    then show ?thesis by (simp add: rendered_def)
  qed
  have 2: "rendered w' k = filter (\<lambda>r. r \<notin> set (markers w)) (rendered w k)"
    if "k \<noteq> map_id m" for k
  proof -
    have a: "filter (shown w' k) [next_ref w..<next_ref w'] = []"
    proof -
      have "\<not> shown w' k x" if "x \<in> set [next_ref w..<next_ref w']" for x
      proof -
        have "shown w' (map_id m) x" using new that by simp
        then show ?thesis using \<open>k \<noteq> map_id m\<close> by (auto simp: shown_def split: option.splits)
      qed
      then show ?thesis by (simp add: filter_empty_conv)
    qed
    have b: "filter (shown w' k) [0..<next_ref w] =
        filter (\<lambda>r. r \<notin> set (markers w)) (filter (shown w k) [0..<next_ref w])"
      using sh by (auto intro: filter_cong)
    have "rendered w' k = filter (shown w' k) [0..<next_ref w]"
      using rendered_split [OF n, of k] a by simp
    also have "\<dots> = filter (\<lambda>r. r \<notin> set (markers w)) (rendered w k)"
      unfolding b by (simp add: rendered_def)
    finally show ?thesis .
  qed
  have 3: "set (markers w') \<subseteq> set (rendered w' (map_id m))"
    using new by (auto simp: ms rendered_def)
  have 4: "set (markers w') \<inter> set (markers w) = {}"
    using wf by (auto simp: ms)
  have 5: "\<forall>r \<in> set (markers w'). r < next_ref w'" by (simp add: ms)
  have 6: "heap w r = None \<and> heap w' r \<noteq> None"
    if fresh: "\<forall>r. next_ref w \<le> r \<longrightarrow> heap w r = None" and "r \<in> set (markers w')" for r
  proof -
    have range: "next_ref w \<le> r" "r < next_ref w'" using that(2) by (simp_all add: ms)
    then have "shown w' (map_id m) r" using new by blast
    then have "heap w' r \<noteq> None" by (cases "heap w' r") (simp_all add: shown_def)
    then show ?thesis using fresh range(1) by blast
  qed
  show ?thesis using 1 2 3 4 5 6 n ms new old by blast
qed

theorem recompute_shared_marker_list_witness:
  "markers world_one_layer = [0] \<and> next_ref world_one_layer = 1 \<and>
   recompute any_dom (Some (whole_map 20)) one_point DEFAULT_OPTIONS world_one_layer =
     (None, world_two_layers) \<and>
   0 \<notin> set (rendered world_two_layers 10) \<and>
   set (markers world_two_layers) \<subseteq> set (rendered world_two_layers 20) \<and>
   markers world_two_layers = [next_ref world_one_layer..<next_ref world_two_layers] \<and>
   heap world_one_layer 1 = None \<and> heap world_two_layers 1 \<noteq> None"
proof -
  have wf: "\<forall>r \<in> set (markers world_one_layer). r < next_ref world_one_layer"
    by (simp add: world_one_layer_eq)
  have fresh: "\<forall>r. next_ref world_one_layer \<le> r \<longrightarrow> heap world_one_layer r = None"
    by (simp add: world_one_layer_eq)
  have one: "1 \<in> set (markers world_two_layers)"
    by (simp add: world_two_layers_eq)
  have r: "recompute any_dom (Some (whole_map 20)) one_point DEFAULT_OPTIONS world_one_layer =
     (None, world_two_layers)"
    by (simp add: recompute_two_layers world_two_layers_eq)
  have id: "map_id (whole_map 20) = 20" by (simp add: whole_map_def)
  from recompute_shared_marker_list [OF wf r]
  have a: "\<forall>r \<in> set (markers world_one_layer). \<forall>k. r \<notin> set (rendered world_two_layers k)"
    and b: "set (markers world_two_layers) \<subseteq> set (rendered world_two_layers (map_id (whole_map 20)))"
    and c: "markers world_two_layers = [next_ref world_one_layer..<next_ref world_two_layers]"
    and d: "(\<forall>r. next_ref world_one_layer \<le> r \<longrightarrow> heap world_one_layer r = None) \<longrightarrow>
            (\<forall>r \<in> set (markers world_two_layers).
               heap world_one_layer r = None \<and> heap world_two_layers r \<noteq> None)"
    by blast+
  from d fresh one have e: "heap world_one_layer 1 = None \<and> heap world_two_layers 1 \<noteq> None"
    by blast
  have m0: "markers world_one_layer = [0]" "next_ref world_one_layer = 1"
    by (simp_all add: world_one_layer_eq)
  from a m0 have "0 \<notin> set (rendered world_two_layers 10)" by simp
  then show ?thesis using r b c e m0 by (simp add: id)
qed

end
